theory Spec2Isabelle
  imports Main "HOL-Library.Word" "HOL-Library.Sublist"
begin

section \<open>The object pool of \<^verbatim>\<open>ObjectPool.hpp\<close>\<close>

text \<open>
  \<^verbatim>\<open>tab::ObjectPool<T, BlockCap>\<close> keeps a singly linked list of memory blocks, newest
  first. Every block holds \<^verbatim>\<open>BlockCap\<close> units; a unit is a link field \<^verbatim>\<open>next\<close> followed
  by the raw bytes of one object.

  The embedding:
  \<^item> \<^verbatim>\<open>size_t\<close> is a 64-bit word, so that \<^verbatim>\<open>++\<close>, \<^verbatim>\<open>--\<close>, \<^verbatim>\<open>+=\<close> and \<^verbatim>\<open>*\<close> wrap as in the code;
  \<^item> \<^verbatim>\<open>unit_index_t\<close> is the signed type that \<^verbatim>\<open>std::conditional_t\<close> picks wide enough
    for the values \<open>0 .. BlockCap\<close>; it is modelled by \<open>int\<close>, with the wrap of \<^verbatim>\<open>--\<close> at the
    least value of the type written out;
  \<^item> the chain \<^verbatim>\<open>first_ -> next -> ... -> nullptr\<close> is the list of its blocks, head first,
    and \<^verbatim>\<open>nullptr\<close> is the empty list; the members \<^verbatim>\<open>first_\<close> and \<^verbatim>\<open>total_block_\<close> are the
    fields \<open>first_blk\<close> and \<open>total_block\<close> (a name cannot end in an underscore here), the link
    field \<^verbatim>\<open>next\<close> of a unit is \<open>unit_next\<close>;
  \<^item> a pointer is a byte address; a block records the address of \<^verbatim>\<open>units[0]\<close>;
  \<^item> the template parameter \<^verbatim>\<open>BlockCap\<close> and the two sizes that the platform fixes,
    \<^verbatim>\<open>sizeof(unit_index_t)\<close> and the size of one element of \<^verbatim>\<open>units\<close>, are parameters;
  \<^item> the address that \<^verbatim>\<open>new MemoryBlock\<close> returns is an input: \<open>alloc i\<close> is the address of
    \<^verbatim>\<open>units[0]\<close> of the block that the \<open>i\<close>-th \<^verbatim>\<open>new\<close> of the call creates;
  \<^item> the bytes \<^verbatim>\<open>mem\<close> of a unit are modelled by the object that lives there, if any:
    placement \<^verbatim>\<open>new\<close> stores \<open>Some v\<close>, the destructor call stores \<open>None\<close>;
  \<^item> an operation returns its outcome together with the pool it leaves behind; a thrown
    exception is \<open>Inl\<close>. Where the C++ has no defined behaviour (a null or out-of-bounds
    access) the outcome is \<open>Inl UndefinedBehaviour\<close>;
  \<^item> the constructor call \<^verbatim>\<open>T(args...)\<close> of \<^verbatim>\<open>get\<close> is an input as well: \<open>Some v\<close> when it
    returns, having constructed \<open>v\<close>, and \<open>None\<close> when it throws.
\<close>

type_synonym size_t = "64 word"
type_synonym unit_index_t = int
type_synonym addr = int

record params =
  BlockCap :: nat
  IndexSize :: nat
  UnitSize :: nat

record 'a unit_t =
  unit_next :: unit_index_t
  mem :: "'a option"

record 'a MemoryBlock =
  units_at :: addr
  first :: unit_index_t
  used :: unit_index_t
  units :: "'a unit_t list"

record 'a ObjectPool =
  first_blk :: "'a MemoryBlock list"
  total_block :: size_t

datatype error =
    UnavailableBlockCountException
  | UnavailableMemoryException
  | ConstructorException
  | UndefinedBehaviour

type_synonym ('a, 'r) outcome = "(error + 'r) \<times> 'a ObjectPool"

subsection \<open>Blocks\<close>

text \<open>\<^verbatim>\<open>new MemoryBlock\<close>: the default member initialisers, \<^verbatim>\<open>units\<close> zeroed.\<close>

definition new_MemoryBlock :: "params \<Rightarrow> addr \<Rightarrow> 'a MemoryBlock" where
  "new_MemoryBlock P a =
     \<lparr>units_at = a, first = 0, used = 0,
      units = replicate (BlockCap P) \<lparr>unit_next = 0, mem = None\<rparr>\<rparr>"

text \<open>
  The inner loop of \<^verbatim>\<open>addBlock\<close>:
  \<^verbatim>\<open>for(size_t j = 1; j <= BlockCap; ++j) { data->next = j; ++data; }\<close>
  with \<open>us\<close> the units from \<^verbatim>\<open>data\<close> on.
\<close>

fun link_units :: "nat \<Rightarrow> 'a unit_t list \<Rightarrow> 'a unit_t list" where
  "link_units j [] = []"
| "link_units j (u # us) = u\<lparr>unit_next := int j\<rparr> # link_units (Suc j) us"

definition fresh_block :: "params \<Rightarrow> addr \<Rightarrow> 'a MemoryBlock" where
  "fresh_block P a =
     (let b = new_MemoryBlock P a in b\<lparr>units := link_units 1 (units b)\<rparr>)"

text \<open>The address of \<^verbatim>\<open>units[k].mem\<close>: the bytes follow the link field.\<close>

definition mem_addr :: "params \<Rightarrow> 'a MemoryBlock \<Rightarrow> nat \<Rightarrow> addr" where
  "mem_addr P b k = units_at b + int k * int (UnitSize P) + int (IndexSize P)"

subsection \<open>Construction, swap, capacity\<close>


text \<open>The outer loop of \<^verbatim>\<open>addBlock\<close>, after \<open>i\<close> iterations.\<close>

primrec addBlock_loop ::
  "params \<Rightarrow> (nat \<Rightarrow> addr) \<Rightarrow> nat \<Rightarrow> 'a MemoryBlock list \<Rightarrow> 'a MemoryBlock list" where
  "addBlock_loop P alloc 0 bs = bs"
| "addBlock_loop P alloc (Suc i) bs = fresh_block P (alloc i) # addBlock_loop P alloc i bs"

definition addBlock ::
  "params \<Rightarrow> (nat \<Rightarrow> addr) \<Rightarrow> size_t \<Rightarrow> 'a ObjectPool \<Rightarrow> ('a, unit) outcome" where
  "addBlock P alloc n_block p =
     (if n_block > 0 then
        (Inr (), p\<lparr>first_blk := addBlock_loop P alloc (unat n_block) (first_blk p),
                   total_block := total_block p + n_block\<rparr>)
      else (Inl UnavailableBlockCountException, p))"

text \<open>
  \<^verbatim>\<open>ObjectPool(size_t n_block) : first_(nullptr), total_block_(0) { addBlock(n_block); }\<close>
  An exception leaves no object behind.
\<close>

definition ObjectPool_ctor ::
  "params \<Rightarrow> (nat \<Rightarrow> addr) \<Rightarrow> size_t \<Rightarrow> error + 'a ObjectPool" where
  "ObjectPool_ctor P alloc n_block =
     (case addBlock P alloc n_block \<lparr>first_blk = [], total_block = 0\<rparr> of
        (Inl e, _) \<Rightarrow> Inl e
      | (Inr _, p) \<Rightarrow> Inr p)"

definition ObjectPool_default :: "params \<Rightarrow> (nat \<Rightarrow> addr) \<Rightarrow> error + 'a ObjectPool" where
  "ObjectPool_default P alloc = ObjectPool_ctor P alloc 1"

definition swap_pool :: "'a ObjectPool \<Rightarrow> 'a ObjectPool \<Rightarrow> 'a ObjectPool \<times> 'a ObjectPool" where
  "swap_pool this op =
     (this\<lparr>first_blk := first_blk op, total_block := total_block op\<rparr>,
      op\<lparr>first_blk := first_blk this, total_block := total_block this\<rparr>)"

text \<open>
  \<^verbatim>\<open>ObjectPool(ObjectPool&& op) { this->swap(op); }\<close>
  The constructor has no member initialisers and the two members have no default ones,
  so \<^verbatim>\<open>swap\<close> runs on whatever the storage of the new object holds: \<open>uninit\<close>. The result
  is the new pool and the pool moved from.
\<close>

definition ObjectPool_move :: "'a ObjectPool \<Rightarrow> 'a ObjectPool \<Rightarrow> 'a ObjectPool \<times> 'a ObjectPool" where
  "ObjectPool_move uninit op = swap_pool uninit op"

subsection \<open>removeBlock and resize\<close>

text \<open>
  The loop of \<^verbatim>\<open>removeBlock\<close>. The list is the chain \<^verbatim>\<open>ptr->next\<close>; the result is the chain
  that \<^verbatim>\<open>ptr->next\<close> holds when the loop ends, \<^verbatim>\<open>total_block_\<close> and \<^verbatim>\<open>ret\<close>.
\<close>

fun removeBlock_loop ::
  "size_t \<Rightarrow> 'a MemoryBlock list \<Rightarrow> size_t \<Rightarrow> size_t \<Rightarrow> 'a MemoryBlock list \<times> size_t \<times> size_t" where
  "removeBlock_loop n_block [] tot ret = ([], tot, ret)"
| "removeBlock_loop n_block (b # bs) tot ret =
     (if used b = 0 then
        (if ret + 1 = n_block then (bs, tot - 1, ret + 1)
         else removeBlock_loop n_block bs (tot - 1) (ret + 1))
      else
        (case removeBlock_loop n_block bs tot ret of
           (bs', tot', ret') \<Rightarrow> (b # bs', tot', ret')))"

definition removeBlock :: "size_t \<Rightarrow> 'a ObjectPool \<Rightarrow> ('a, size_t) outcome" where
  "removeBlock n_block p =
     (if n_block > 0 then
        (if total_block p \<noteq> 0 then
           (case first_blk p of
              [] \<Rightarrow> (Inl UndefinedBehaviour, p)
            | h # t \<Rightarrow>
                (case removeBlock_loop n_block t (total_block p) 0 of
                   (t', tot', ret) \<Rightarrow>
                     if used h = 0 \<and> ret < n_block
                     then (Inr (ret + 1), p\<lparr>first_blk := t', total_block := tot' - 1\<rparr>)
                     else (Inr ret, p\<lparr>first_blk := h # t', total_block := tot'\<rparr>)))
         else (Inr 0, p))
      else (Inl UnavailableBlockCountException, p))"

definition resize ::
  "params \<Rightarrow> (nat \<Rightarrow> addr) \<Rightarrow> size_t \<Rightarrow> 'a ObjectPool \<Rightarrow> ('a, size_t) outcome" where
  "resize P alloc n_block p =
     (if n_block = total_block p then (Inr (total_block p), p)
      else if n_block > total_block p then
        (case addBlock P alloc (n_block - total_block p) p of
           (Inl e, p') \<Rightarrow> (Inl e, p')
         | (Inr _, p') \<Rightarrow> (Inr (total_block p'), p'))
      else
        (case removeBlock (total_block p - n_block) p of
           (Inl e, p') \<Rightarrow> (Inl e, p')
         | (Inr _, p') \<Rightarrow> (Inr (total_block p'), p')))"

subsection \<open>get\<close>

text \<open>
  The scan of \<^verbatim>\<open>get\<close>: \<^verbatim>\<open>for(; blk->used == BlockCap;) blk = blk->next\<close>; the position of the
  block it stops at, \<open>None\<close> when it runs into \<^verbatim>\<open>nullptr\<close>.
\<close>

fun get_scan :: "params \<Rightarrow> 'a MemoryBlock list \<Rightarrow> nat option" where
  "get_scan P [] = None"
| "get_scan P (b # bs) =
     (if used b = int (BlockCap P) then map_option Suc (get_scan P bs) else Some 0)"

text \<open>
  The last four lines of \<^verbatim>\<open>get\<close> on the chosen block:
  \<^verbatim>\<open>++blk->used; T* ret = new(blk->units[blk->first].mem) T(args...);
  blk->first = blk->units[blk->first].next; return ret;\<close>
  The array \<^verbatim>\<open>units\<close> has \<^verbatim>\<open>BlockCap\<close> elements; an index outside it is undefined. When
  the constructor throws, the exception leaves \<^verbatim>\<open>get\<close> after \<^verbatim>\<open>++blk->used\<close> and before
  \<^verbatim>\<open>blk->first\<close> is advanced. \<^verbatim>\<open>used\<close> is raised only where it differs from \<^verbatim>\<open>BlockCap\<close>, and
  the index type holds \<open>0 .. BlockCap\<close>.
\<close>

definition take_unit ::
  "params \<Rightarrow> 'a option \<Rightarrow> 'a MemoryBlock \<Rightarrow> (error + addr) \<times> 'a MemoryBlock" where
  "take_unit P c blk =
     (let b = blk\<lparr>used := used blk + 1\<rparr>; f = first b in
      if 0 \<le> f \<and> nat f < length (units b) then
        (case c of
           None \<Rightarrow> (Inl ConstructorException, b)
         | Some v \<Rightarrow>
             (Inr (mem_addr P b (nat f)),
              b\<lparr>units := (units b)[nat f := (units b ! nat f)\<lparr>mem := Some v\<rparr>],
                first := unit_next (units b ! nat f)\<rparr>))
      else (Inl UndefinedBehaviour, b))"

definition take_at :: "params \<Rightarrow> 'a option \<Rightarrow> nat \<Rightarrow> 'a ObjectPool \<Rightarrow> ('a, addr) outcome" where
  "take_at P c i p =
     (case take_unit P c (first_blk p ! i) of
        (r, b') \<Rightarrow> (r, p\<lparr>first_blk := (first_blk p)[i := b']\<rparr>))"

definition get ::
  "params \<Rightarrow> (nat \<Rightarrow> addr) \<Rightarrow> 'a option \<Rightarrow> 'a ObjectPool \<Rightarrow> ('a, addr) outcome" where
  "get P alloc c p =
     (let (k, p1) = (if first_blk p = [] then (1, snd (addBlock P alloc 1 p)) else (0, p)) in
      case get_scan P (first_blk p1) of
        Some i \<Rightarrow> take_at P c i p1
      | None \<Rightarrow> take_at P c 0 (snd (addBlock P (\<lambda>i. alloc (i + k)) 1 p1)))"

subsection \<open>release\<close>

text \<open>
  \<^verbatim>\<open>unit_index_t\<close> has \<^verbatim>\<open>sizeof(unit_index_t)\<close> bytes of eight bits, in two's complement.
  \<^verbatim>\<open>--(blk->used)\<close> at the least value of the type yields the greatest one.
\<close>

definition index_min :: "params \<Rightarrow> int" where
  "index_min P = - (2 ^ (8 * IndexSize P - 1))"

definition index_max :: "params \<Rightarrow> int" where
  "index_max P = 2 ^ (8 * IndexSize P - 1) - 1"

definition dec_index :: "params \<Rightarrow> unit_index_t \<Rightarrow> unit_index_t" where
  "dec_index P x = (if x = index_min P then index_max P else x - 1)"

text \<open>The division of C++ on integers rounds towards zero.\<close>

definition trunc_div :: "int \<Rightarrow> int \<Rightarrow> int" where
  "trunc_div a b = (if 0 \<le> a then a div b else - ((- a) div b))"

text \<open>
  The pointer difference
  \<^verbatim>\<open>(unit*)((byte*)ptr - sizeof(unit_index_t)) - blk->units\<close>: the distance in bytes divided
  by the size of a unit.
\<close>

definition unit_offset :: "params \<Rightarrow> addr \<Rightarrow> 'a MemoryBlock \<Rightarrow> int" where
  "unit_offset P ptr blk =
     trunc_div (ptr - int (IndexSize P) - units_at blk) (int (UnitSize P))"

text \<open>
  The body of the \<^verbatim>\<open>if\<close> in \<^verbatim>\<open>release\<close>:
  \<^verbatim>\<open>--(blk->used); size_t offset = ...; blk->units[offset].next = blk->first;
  blk->first = offset; static_cast<T*>(...)->~T(); return;\<close>
\<close>

definition release_unit :: "params \<Rightarrow> addr \<Rightarrow> 'a MemoryBlock \<Rightarrow> error + 'a MemoryBlock" where
  "release_unit P ptr blk =
     (if UnitSize P = 0 then Inl UndefinedBehaviour
      else
        (let offset = unit_offset P ptr blk in
         if 0 \<le> offset \<and> nat offset < length (units blk) then
           Inr (blk\<lparr>used := dec_index P (used blk),
                    units := (units blk)[nat offset := \<lparr>unit_next = first blk, mem = None\<rparr>],
                    first := offset\<rparr>)
         else Inl UndefinedBehaviour))"

text \<open>The test \<^verbatim>\<open>blk->units < ptr && ptr < blk->units + BlockCap\<close>, in bytes.\<close>

definition in_block :: "params \<Rightarrow> addr \<Rightarrow> 'a MemoryBlock \<Rightarrow> bool" where
  "in_block P ptr blk \<longleftrightarrow>
     units_at blk < ptr \<and> ptr < units_at blk + int (BlockCap P) * int (UnitSize P)"

fun release_scan :: "params \<Rightarrow> addr \<Rightarrow> 'a MemoryBlock list \<Rightarrow> error + 'a MemoryBlock list" where
  "release_scan P ptr [] = Inl UnavailableMemoryException"
| "release_scan P ptr (blk # bs) =
     (if in_block P ptr blk then
        (case release_unit P ptr blk of
           Inl e \<Rightarrow> Inl e
         | Inr blk' \<Rightarrow> Inr (blk' # bs))
      else
        (case release_scan P ptr bs of
           Inl e \<Rightarrow> Inl e
         | Inr bs' \<Rightarrow> Inr (blk # bs')))"

definition release :: "params \<Rightarrow> addr \<Rightarrow> 'a ObjectPool \<Rightarrow> ('a, unit) outcome" where
  "release P ptr p =
     (case release_scan P ptr (first_blk p) of
        Inl e \<Rightarrow> (Inl e, p)
      | Inr bs \<Rightarrow> (Inr (), p\<lparr>first_blk := bs\<rparr>))"

subsection \<open>Observing a pool\<close>

text \<open>
  The free list of a block: the indices met from \<^verbatim>\<open>first\<close> along the link fields up to the
  sentinel \<^verbatim>\<open>BlockCap\<close>. A list without repetition has at most \<^verbatim>\<open>BlockCap\<close> entries, so
  that many steps reach the sentinel of every such list; \<open>None\<close> is a chain that leaves
  the array or does not end in that many steps.
\<close>

fun free_chain :: "nat \<Rightarrow> nat \<Rightarrow> 'a unit_t list \<Rightarrow> unit_index_t \<Rightarrow> nat list option" where
  "free_chain cap 0 us i = (if i = int cap then Some [] else None)"
| "free_chain cap (Suc fuel) us i =
     (if i = int cap then Some []
      else if 0 \<le> i \<and> nat i < length us
      then map_option ((#) (nat i)) (free_chain cap fuel us (unit_next (us ! nat i)))
      else None)"

definition free_list :: "params \<Rightarrow> 'a MemoryBlock \<Rightarrow> nat list option" where
  "free_list P b = free_chain (BlockCap P) (BlockCap P) (units b) (first b)"

text \<open>A block as \<^verbatim>\<open>addBlock\<close> leaves it: nothing used, the units linked \<open>0 \<rightarrow> 1 \<rightarrow> \<dots> \<rightarrow> BlockCap\<close>.\<close>

definition fully_free :: "params \<Rightarrow> 'a MemoryBlock \<Rightarrow> bool" where
  "fully_free P b \<longleftrightarrow>
     used b = 0 \<and> first b = 0 \<and>
     units b = map (\<lambda>j. \<lparr>unit_next = int j + 1, mem = None\<rparr>) [0..<BlockCap P] \<and>
     free_list P b = Some [0..<BlockCap P]"

text \<open>The example of the specification: four units per block, one-byte index, eight-byte object.\<close>

definition P4 :: params where
  "P4 = \<lparr>BlockCap = 4, IndexSize = 1, UnitSize = 9\<rparr>"

definition alloc4 :: "nat \<Rightarrow> addr" where
  "alloc4 i = 1000 + 100 * int i"

definition empty_pool :: "nat ObjectPool" where
  "empty_pool = \<lparr>first_blk = [], total_block = 0\<rparr>"

text \<open>The number of blocks that \<^verbatim>\<open>removeBlock\<close> may remove: those with \<^verbatim>\<open>used == 0\<close>.\<close>

definition empties :: "'a MemoryBlock list \<Rightarrow> nat" where
  "empties bs = length (filter (\<lambda>b. used b = 0) bs)"

text \<open>Removing the first \<open>k\<close> empty blocks of a list, the others staying in place.\<close>

fun drop_empty :: "nat \<Rightarrow> 'a MemoryBlock list \<Rightarrow> 'a MemoryBlock list" where
  "drop_empty 0 bs = bs"
| "drop_empty (Suc k) [] = []"
| "drop_empty (Suc k) (b # bs) =
     (if used b = 0 then drop_empty k bs else b # drop_empty (Suc k) bs)"

text \<open>
  The pool invariant of the specification: \<^verbatim>\<open>total_block_\<close> is the number of blocks in the
  list.
\<close>

definition counted :: "'a ObjectPool \<Rightarrow> bool" where
  "counted p \<longleftrightarrow> unat (total_block p) = length (first_blk p)"

text \<open>
  \<^verbatim>\<open>removeBlock(n)\<close> in the words of the specification: walk the blocks behind the head and
  remove empty ones until \<open>n\<close> are removed or none is left; the head is looked at last, and
  goes too when it is empty and fewer than \<open>n\<close> blocks went before it.
\<close>

definition removeBlock_spec :: "nat \<Rightarrow> 'a MemoryBlock list \<Rightarrow> 'a MemoryBlock list" where
  "removeBlock_spec n bs =
     (case bs of
        [] \<Rightarrow> []
      | h # t \<Rightarrow> if used h = 0 \<and> empties t < n then drop_empty n t else h # drop_empty n t)"

text \<open>A block with one object in unit 0, and a pool of a fresh block before it.\<close>

definition busy_block :: "nat MemoryBlock" where
  "busy_block =
     \<lparr>units_at = 1000, first = 1, used = 1,
      units = [\<lparr>unit_next = 1, mem = Some 7\<rparr>, \<lparr>unit_next = 2, mem = None\<rparr>,
               \<lparr>unit_next = 3, mem = None\<rparr>, \<lparr>unit_next = 4, mem = None\<rparr>]\<rparr>"

definition two_pool :: "nat ObjectPool" where
  "two_pool = \<lparr>first_blk = [fresh_block P4 1100, busy_block], total_block = 2\<rparr>"

text \<open>A pool of one block with one object in it.\<close>

definition one_pool :: "nat ObjectPool" where
  "one_pool = \<lparr>first_blk = [busy_block], total_block = 1\<rparr>"

text \<open>
  A block at \<open>a\<close> whose units \<open>0 .. length vs - 1\<close> hold the objects \<open>vs\<close>, taken in this order
  from the fresh block.
\<close>

definition filled_block :: "params \<Rightarrow> addr \<Rightarrow> 'a list \<Rightarrow> 'a MemoryBlock" where
  "filled_block P a vs =
     \<lparr>units_at = a, first = int (length vs), used = int (length vs),
      units = map (\<lambda>j. \<lparr>unit_next = int j + 1,
                          mem = (if j < length vs then Some (vs ! j) else None)\<rparr>)
                [0..<BlockCap P]\<rparr>"

text \<open>
  Consecutive calls of \<^verbatim>\<open>get\<close>, each with what \<^verbatim>\<open>new\<close> would return and the object
  that its constructor call constructs; the outcomes in order and the pool at the end.
\<close>

fun gets ::
  "params \<Rightarrow> ((nat \<Rightarrow> addr) \<times> 'a) list \<Rightarrow> 'a ObjectPool \<Rightarrow> (error + addr) list \<times> 'a ObjectPool" where
  "gets P [] p = ([], p)"
| "gets P (c # cs) p =
     (case get P (fst c) (Some (snd c)) p of
        (r, p1) \<Rightarrow> (case gets P cs p1 of (rs, p2) \<Rightarrow> (r # rs, p2)))"

text \<open>Four calls of \<^verbatim>\<open>get\<close> for the example.\<close>

definition calls4 :: "((nat \<Rightarrow> addr) \<times> nat) list" where
  "calls4 = [(alloc4, 10), (alloc4, 20), (alloc4, 30), (alloc4, 40)]"

text \<open>
  The block invariant of the specification: the free list has \<^verbatim>\<open>BlockCap - used\<close> entries,
  no index twice, and none of its units holds an object.
\<close>

definition block_inv :: "params \<Rightarrow> 'a MemoryBlock \<Rightarrow> bool" where
  "block_inv P b \<longleftrightarrow>
     length (units b) = BlockCap P \<and>
     (case free_list P b of
        None \<Rightarrow> False
      | Some xs \<Rightarrow>
          distinct xs \<and> int (length xs) = int (BlockCap P) - used b \<and>
          (\<forall>k\<in>set xs. mem (units b ! k) = None))"

text \<open>
  What the heap guarantees of blocks that are alive together: their \<^verbatim>\<open>units\<close> arrays do not
  overlap.
\<close>

definition apart :: "params \<Rightarrow> 'a MemoryBlock \<Rightarrow> 'a MemoryBlock \<Rightarrow> bool" where
  "apart P b c \<longleftrightarrow>
     units_at b + int (BlockCap P) * int (UnitSize P) \<le> units_at c \<or>
     units_at c + int (BlockCap P) * int (UnitSize P) \<le> units_at b"

fun separate :: "params \<Rightarrow> 'a MemoryBlock list \<Rightarrow> bool" where
  "separate P [] = True"
| "separate P (b # bs) = ((\<forall>c\<in>set bs. apart P b c) \<and> separate P bs)"

text \<open>
  The sizes of a real instance: at least one unit per block, a link field of at least one
  byte, and a unit larger than its link field (an object has at least one byte).
\<close>

definition params_ok :: "params \<Rightarrow> bool" where
  "params_ok P \<longleftrightarrow> 0 < BlockCap P \<and> 0 < IndexSize P \<and> IndexSize P < UnitSize P"

text \<open>
  A handle that \<^verbatim>\<open>release\<close> may be given: the address of the object of a unit, in a block
  of the pool, that holds an object (returned by \<^verbatim>\<open>get\<close> and not released since).
\<close>

definition live_handle :: "params \<Rightarrow> 'a ObjectPool \<Rightarrow> addr \<Rightarrow> bool" where
  "live_handle P p h \<longleftrightarrow>
     (\<exists>b\<in>set (first_blk p). \<exists>k<BlockCap P. h = mem_addr P b k \<and> mem (units b ! k) \<noteq> None)"

text \<open>
  The pools that the constructor and sequences of \<^verbatim>\<open>addBlock\<close>, \<^verbatim>\<open>removeBlock\<close>, \<^verbatim>\<open>resize\<close>,
  \<^verbatim>\<open>get\<close> and \<^verbatim>\<open>release\<close> produce when each call returns normally (so no constructor call
  inside \<^verbatim>\<open>get\<close> throws), \<^verbatim>\<open>release\<close> is called with a live handle, and \<^verbatim>\<open>new\<close> returns memory
  that does not overlap the blocks of the pool. A call that throws the block-count or the
  unknown-pointer exception leaves the pool as it was.
\<close>

inductive reachable :: "params \<Rightarrow> 'a ObjectPool \<Rightarrow> bool" for P :: params where
  r_ctor: "ObjectPool_ctor P alloc n = Inr p \<Longrightarrow> separate P (first_blk p) \<Longrightarrow> reachable P p"
| r_addBlock: "reachable P p \<Longrightarrow> addBlock P alloc n p = (Inr (), p') \<Longrightarrow>
     separate P (first_blk p') \<Longrightarrow> reachable P p'"
| r_removeBlock: "reachable P p \<Longrightarrow> removeBlock n p = (Inr r, p') \<Longrightarrow> reachable P p'"
| r_resize: "reachable P p \<Longrightarrow> resize P alloc n p = (Inr r, p') \<Longrightarrow>
     separate P (first_blk p') \<Longrightarrow> reachable P p'"
| r_get: "reachable P p \<Longrightarrow> get P alloc c p = (Inr h, p') \<Longrightarrow>
     separate P (first_blk p') \<Longrightarrow> reachable P p'"
| r_release: "reachable P p \<Longrightarrow> live_handle P p h \<Longrightarrow> release P h p = (Inr (), p') \<Longrightarrow>
     reachable P p'"

text \<open>Every block of the pool satisfies the block invariant.\<close>

definition blocks_inv :: "params \<Rightarrow> 'a ObjectPool \<Rightarrow> bool" where
  "blocks_inv P p \<longleftrightarrow> (\<forall>b\<in>set (first_blk p). block_inv P b)"

text \<open>A full block, and a pool with it before the block that has one object.\<close>

definition full_block :: "nat MemoryBlock" where
  "full_block =
     \<lparr>units_at = 1100, first = 4, used = 4,
      units = [\<lparr>unit_next = 1, mem = Some 1\<rparr>, \<lparr>unit_next = 2, mem = Some 2\<rparr>,
               \<lparr>unit_next = 3, mem = Some 3\<rparr>, \<lparr>unit_next = 4, mem = Some 4\<rparr>]\<rparr>"

definition full_pool :: "nat ObjectPool" where
  "full_pool = \<lparr>first_blk = [full_block, busy_block], total_block = 2\<rparr>"

text \<open>
  The block at 1000 after a \<^verbatim>\<open>get\<close> on the fresh block whose constructor call threw: \<^verbatim>\<open>used\<close>
  is raised, the free list is as before.
\<close>

definition thrown_block :: "nat MemoryBlock" where
  "thrown_block =
     \<lparr>units_at = 1000, first = 0, used = 1,
      units = [\<lparr>unit_next = 1, mem = None\<rparr>, \<lparr>unit_next = 2, mem = None\<rparr>,
               \<lparr>unit_next = 3, mem = None\<rparr>, \<lparr>unit_next = 4, mem = None\<rparr>]\<rparr>"

text \<open>The fresh block at 1000; a pool that has it in its list and a block count of 0.\<close>

definition fresh4 :: "nat MemoryBlock" where
  "fresh4 =
     \<lparr>units_at = 1000, first = 0, used = 0,
      units = [\<lparr>unit_next = 1, mem = None\<rparr>, \<lparr>unit_next = 2, mem = None\<rparr>,
               \<lparr>unit_next = 3, mem = None\<rparr>, \<lparr>unit_next = 4, mem = None\<rparr>]\<rparr>"

definition uncounted_pool :: "nat ObjectPool" where
  "uncounted_pool = \<lparr>first_blk = [fresh4], total_block = 0\<rparr>"

section \<open>Auxiliary facts\<close>

lemma link_units_replicate:
  "link_units j (replicate n \<lparr>unit_next = 0, mem = None\<rparr>) =
   map (\<lambda>i. \<lparr>unit_next = int i + 1, mem = None\<rparr>) [j - 1 ..< j - 1 + n]" if "0 < j"
  using that
proof (induction n arbitrary: j)
  case 0
  then show ?case by simp
next
  case (Suc n)
  have "[j - 1 ..< j - 1 + Suc n] = (j - 1) # [j ..< j + n]"
    using Suc.prems by (simp add: upt_rec)
  with Suc show ?case by (simp add: of_nat_diff)
qed

lemma units_fresh_block:
  "units (fresh_block P a) = map (\<lambda>j. \<lparr>unit_next = int j + 1, mem = None\<rparr>) [0..<BlockCap P]"
  by (simp add: fresh_block_def new_MemoryBlock_def link_units_replicate)

lemma free_chain_linked:
  assumes "i \<le> cap" "cap - i \<le> fuel"
  shows "free_chain cap fuel (map (\<lambda>j. \<lparr>unit_next = int j + 1, mem = m j\<rparr>) [0..<cap]) (int i)
         = Some [i..<cap]"
  using assms
proof (induction fuel arbitrary: i)
  case 0
  then show ?case by simp
next
  case (Suc fuel)
  show ?case
  proof (cases "i = cap")
    case True
    then show ?thesis by simp
  next
    case False
    with Suc.prems have lt: "i < cap" by simp
    have "free_chain cap fuel (map (\<lambda>j. \<lparr>unit_next = int j + 1, mem = m j\<rparr>) [0..<cap]) (int (Suc i))
          = Some [Suc i..<cap]"
      using Suc.prems lt by (intro Suc.IH) auto
    then show ?thesis using lt False by (simp add: upt_rec[of i] add.commute)
  qed
qed

lemma fresh_block_fully_free: "fully_free P (fresh_block P a)"
proof -
  have "free_list P (fresh_block P a) = Some [0..<BlockCap P]"
    unfolding free_list_def units_fresh_block
    using free_chain_linked[of 0 "BlockCap P" "BlockCap P" "\<lambda>_. None"]
    by (simp add: fresh_block_def new_MemoryBlock_def)
  then show ?thesis
    by (simp add: fully_free_def units_fresh_block) (simp add: fresh_block_def new_MemoryBlock_def)
qed

lemma addBlock_loop_eq:
  "addBlock_loop P alloc n bs = map (\<lambda>i. fresh_block P (alloc i)) (rev [0..<n]) @ bs"
  by (induction n) auto

lemma ObjectPool_ctor_pos:
  assumes "0 < n"
  shows "ObjectPool_ctor P alloc n =
         Inr \<lparr>first_blk = map (\<lambda>i. fresh_block P (alloc i)) (rev [0..<unat n]), total_block = n\<rparr>"
  using assms by (simp add: ObjectPool_ctor_def addBlock_def addBlock_loop_eq)


lemma drop_empty_Nil [simp]: "drop_empty k [] = []"
  by (cases k) simp_all

lemma subseq_drop_empty: "subseq (drop_empty k bs) bs"
  by (induction k bs rule: drop_empty.induct) auto

lemma filter_drop_empty:
  "filter (\<lambda>b. used b \<noteq> 0) (drop_empty k bs) = filter (\<lambda>b. used b \<noteq> 0) bs"
  by (induction k bs rule: drop_empty.induct) auto

lemma length_drop_empty:
  "length (drop_empty k bs) + min k (empties bs) = length bs"
  by (induction k bs rule: drop_empty.induct) (auto simp: empties_def)

lemma empties_drop_empty:
  "empties (drop_empty k bs) = empties bs - k"
  by (induction k bs rule: drop_empty.induct) (auto simp: empties_def)

lemma empties_le_length: "empties bs \<le> length bs"
  by (simp add: empties_def)

lemma unat_succ_of_less:
  fixes ret n :: size_t
  assumes "ret < n"
  shows "unat (ret + 1) = Suc (unat ret)"
proof -
  have "unat ret < unat n" using assms by (simp add: word_less_nat_alt)
  moreover have "unat n < 2 ^ LENGTH(64)" by (rule unsigned_less)
  ultimately have "unat ret + unat (1::size_t) < 2 ^ LENGTH(64)" by simp
  then have "unat (ret + 1) = unat ret + unat (1::size_t)" by (simp only: unat_add_lem)
  then show ?thesis by simp
qed

lemma removeBlock_loop_eq:
  assumes "ret < n"
  shows "removeBlock_loop n bs tot ret =
         (drop_empty (unat n - unat ret) bs,
          tot - of_nat (min (unat n - unat ret) (empties bs)),
          ret + of_nat (min (unat n - unat ret) (empties bs)))"
  using assms
proof (induction bs arbitrary: tot ret)
  case Nil
  then show ?case by (simp add: empties_def)
next
  case (Cons b bs)
  have lt: "unat ret < unat n" using Cons.prems by (simp add: word_less_nat_alt)
  have suc: "unat (ret + 1) = Suc (unat ret)" by (rule unat_succ_of_less [OF Cons.prems])
  show ?case
  proof (cases "used b = 0")
    case False
    obtain k where k: "unat n - unat ret = Suc k" using lt by (cases "unat n - unat ret") auto
    show ?thesis using False Cons.IH [OF Cons.prems] by (simp add: k empties_def)
  next
    case True
    show ?thesis
    proof (cases "ret + 1 = n")
      case eq: True
      then have "unat n - unat ret = Suc 0" using suc by simp
      then show ?thesis using True eq by (simp add: empties_def)
    next
      case ne: False
      have "unat (ret + 1) \<noteq> unat n" using ne by (simp add: word_unat_eq_iff)
      then have lt': "ret + 1 < n" using lt suc by (simp add: word_less_nat_alt)
      obtain k where k: "unat n - unat ret = Suc k" using lt by (cases "unat n - unat ret") auto
      then have k': "unat n - unat (ret + 1) = k" using suc by simp
      have e: "empties (b # bs) = Suc (empties bs)" using True by (simp add: empties_def)
      show ?thesis
        using True ne Cons.IH [OF lt', of "tot - 1"]
        by (simp add: k k' e)
    qed
  qed
qed

lemma removeBlock_eq:
  assumes "0 < n" "counted p"
  shows "removeBlock n p =
         (Inr (of_nat (min (unat n) (empties (first_blk p)))),
          p\<lparr>first_blk := removeBlock_spec (unat n) (first_blk p),
            total_block := total_block p - of_nat (min (unat n) (empties (first_blk p)))\<rparr>)"
proof (cases "first_blk p")
  case Nil
  then have "total_block p = 0" using assms(2) by (simp add: counted_def unat_eq_0)
  then show ?thesis using assms(1) Nil
    by (simp add: removeBlock_def removeBlock_spec_def empties_def)
next
  case (Cons h t)
  then have t0: "total_block p \<noteq> 0" using assms(2) by (auto simp: counted_def)
  have n0: "0 < unat n" using assms(1) by (simp add: word_greater_zero_iff unat_gt_0)
  let ?m = "min (unat n) (empties t)"
  have loop: "removeBlock_loop n t (total_block p) 0 =
              (drop_empty (unat n) t, total_block p - of_nat ?m, of_nat ?m)"
    using removeBlock_loop_eq [OF assms(1), of t "total_block p"] by simp
  have m_lt: "?m < 2 ^ LENGTH(64)"
    using unsigned_less [of n, where ?'a = nat] by simp
  have um: "unat (of_nat ?m :: size_t) = ?m"
    using m_lt by (simp add: unat_of_nat)
  have lt_iff: "(of_nat ?m :: size_t) < n \<longleftrightarrow> empties t < unat n"
    by (simp only: word_less_nat_alt um) auto
  show ?thesis
  proof (cases "used h = 0 \<and> empties t < unat n")
    case True
    then have e: "empties (first_blk p) = Suc (empties t)" "?m = empties t"
      "min (unat n) (Suc (empties t)) = Suc (empties t)"
      using Cons by (auto simp: empties_def)
    show ?thesis
      using True assms(1) t0 loop lt_iff
      by (simp add: removeBlock_def Cons removeBlock_spec_def e del: of_nat_min)
        (simp add: e(1) [unfolded Cons])
  next
    case False
    then have "min (unat n) (empties (first_blk p)) = ?m"
      using Cons by (auto simp: empties_def)
    then show ?thesis
      using False assms(1) t0 loop lt_iff
      by (auto simp add: removeBlock_def Cons removeBlock_spec_def simp del: of_nat_min)
  qed
qed

lemma length_removeBlock_spec:
  "length (removeBlock_spec n bs) + min n (empties bs) = length bs"
proof (cases bs)
  case Nil
  then show ?thesis by (simp add: removeBlock_spec_def empties_def)
next
  case (Cons h t)
  have e: "empties (h # t) = (if used h = 0 then Suc (empties t) else empties t)"
    by (simp add: empties_def)
  show ?thesis using length_drop_empty [of n t]
    by (auto simp: Cons removeBlock_spec_def e min_def)
qed

lemma subseq_removeBlock_spec: "subseq (removeBlock_spec n bs) bs"
  by (cases bs) (auto simp: removeBlock_spec_def subseq_drop_empty)

lemma filter_removeBlock_spec:
  "filter (\<lambda>b. used b \<noteq> 0) (removeBlock_spec n bs) = filter (\<lambda>b. used b \<noteq> 0) bs"
  by (cases bs) (auto simp: removeBlock_spec_def filter_drop_empty)

lemma length_release_scan:
  "release_scan P ptr bs = Inr bs' \<Longrightarrow> length bs' = length bs"
  by (induction bs arbitrary: bs') (auto split: if_splits sum.splits)

lemma length_release: "length (first_blk (snd (release P ptr p))) = length (first_blk p)"
  by (auto simp: release_def length_release_scan split: sum.splits)

lemma first_blk_take_at:
  "length (first_blk (snd (take_at P c i p))) = length (first_blk p)"
  by (simp add: take_at_def split: prod.splits)

lemma first_blk_addBlock_1:
  "first_blk (snd (addBlock P alloc 1 p)) = fresh_block P (alloc 0) # first_blk p"
  by (simp add: addBlock_def)

lemma first_blk_take_at_Nil:
  "first_blk (snd (take_at P c i p)) = [] \<longleftrightarrow> first_blk p = []"
  using first_blk_take_at [of P c i p] by (simp only: length_0_conv [symmetric])

lemma length_get:
  "length (first_blk p) \<le> length (first_blk (snd (get P alloc c p))) \<and>
   first_blk (snd (get P alloc c p)) \<noteq> []"
  by (cases "first_blk p = []")
    (simp_all add: get_def first_blk_take_at first_blk_take_at_Nil first_blk_addBlock_1
      split: option.splits)



lemma release_scan_skip:
  assumes "\<forall>b\<in>set pre. \<not> in_block P ptr b"
  shows "release_scan P ptr (pre @ bs) =
         (case release_scan P ptr bs of Inl e \<Rightarrow> Inl e | Inr bs' \<Rightarrow> Inr (pre @ bs'))"
  using assms by (induction pre) (auto split: sum.splits)

lemma mem_addr_in_block:
  assumes "0 < IndexSize P" "IndexSize P < UnitSize P" "k < BlockCap P"
  shows "in_block P (mem_addr P b k) b"
proof -
  have "k * UnitSize P + IndexSize P < Suc k * UnitSize P" using assms(2) by simp
  also have "\<dots> \<le> BlockCap P * UnitSize P"
    using assms(3) by (intro mult_le_mono1) simp
  finally have "int (k * UnitSize P + IndexSize P) < int (BlockCap P * UnitSize P)"
    by (simp only: of_nat_less_iff)
  moreover have "0 < k * UnitSize P + IndexSize P" using assms(1) by simp
  then have "0 < int (k * UnitSize P + IndexSize P)" by (simp only: of_nat_0_less_iff)
  ultimately show ?thesis by (simp add: in_block_def mem_addr_def)
qed

lemma index_min_neg: "index_min P < 0"
  by (simp add: index_min_def)


lemma dec_index_nonneg: "0 \<le> x \<Longrightarrow> dec_index P x = x - 1"
  using index_min_neg [of P] by (simp add: dec_index_def)

lemma unit_offset_mem_addr:
  assumes "0 < UnitSize P"
  shows "unit_offset P (mem_addr P b k) b = int k"
  using assms by (simp add: unit_offset_def mem_addr_def trunc_div_def)

lemma release_unit_mem_addr:
  assumes "0 < UnitSize P" "k < length (units b)"
  shows "release_unit P (mem_addr P b k) b =
         Inr (b\<lparr>used := dec_index P (used b),
                units := (units b)[k := \<lparr>unit_next = first b, mem = None\<rparr>],
                first := int k\<rparr>)"
  using assms by (simp add: release_unit_def unit_offset_mem_addr Let_def)




lemma get_scan_None_iff:
  "get_scan P bs = None \<longleftrightarrow> (\<forall>b\<in>set bs. used b = int (BlockCap P))"
  by (induction bs) auto

lemma get_scan_Some_iff:
  "get_scan P bs = Some i \<longleftrightarrow>
     i < length bs \<and> used (bs ! i) \<noteq> int (BlockCap P) \<and>
     (\<forall>j<i. used (bs ! j) = int (BlockCap P))"
proof (induction bs arbitrary: i)
  case Nil
  show ?case by simp
next
  case (Cons b bs)
  show ?case
  proof (cases "used b = int (BlockCap P)")
    case False
    then show ?thesis by (cases i) auto
  next
    case True
    show ?thesis
    proof (cases i)
      case 0
      with True show ?thesis by auto
    next
      case (Suc i')
      have "(\<forall>j<Suc i'. used ((b # bs) ! j) = int (BlockCap P)) \<longleftrightarrow>
            (\<forall>j<i'. used (bs ! j) = int (BlockCap P))"
        using True by (auto simp: less_Suc_eq_0_disj)
      with True Suc Cons.IH [of i'] show ?thesis by auto
    qed
  qed
qed

lemma fresh_block_filled: "fresh_block P a = filled_block P a []"
  by (simp add: fresh_block_def new_MemoryBlock_def filled_block_def link_units_replicate)

lemma take_unit_filled:
  assumes "length vs < BlockCap P"
  shows "take_unit P (Some v) (filled_block P a vs) =
         (Inr (a + int (length vs) * int (UnitSize P) + int (IndexSize P)),
          filled_block P a (vs @ [v]))"
proof -
  let ?f = "\<lambda>ws j. \<lparr>unit_next = int j + 1, mem = (if j < length ws then Some (ws ! j) else None)\<rparr>"
  let ?k = "length vs"
  have upd: "(map (?f vs) [0..<BlockCap P])[?k := (map (?f vs) [0..<BlockCap P] ! ?k)\<lparr>mem := Some v\<rparr>]
             = map (?f (vs @ [v])) [0..<BlockCap P]"
    using assms by (intro nth_equalityI) (auto simp: nth_list_update nth_append)
  show ?thesis
    using assms upd
    by (simp add: take_unit_def filled_block_def mem_addr_def Let_def add.commute)
qed

lemma get_filled:
  assumes "length vs < BlockCap P"
  shows "get P alloc (Some v) \<lparr>first_blk = [filled_block P a vs], total_block = t\<rparr> =
         (Inr (a + int (length vs) * int (UnitSize P) + int (IndexSize P)),
          \<lparr>first_blk = [filled_block P a (vs @ [v])], total_block = t\<rparr>)"
proof -
  have "used (filled_block P a vs) \<noteq> int (BlockCap P)"
    using assms by (simp add: filled_block_def)
  then show ?thesis
    by (simp add: get_def take_at_def take_unit_filled [OF assms])
qed

lemma get_full:
  assumes "length vs = BlockCap P" "0 < BlockCap P"
  shows "get P alloc (Some v) \<lparr>first_blk = [filled_block P a vs], total_block = t\<rparr> =
         (Inr (alloc 0 + int (IndexSize P)),
          \<lparr>first_blk = [filled_block P (alloc 0) [v], filled_block P a vs], total_block = t + 1\<rparr>)"
proof -
  have "used (filled_block P a vs) = int (BlockCap P)"
    using assms by (simp add: filled_block_def)
  moreover have "take_unit P (Some v) (filled_block P (alloc 0) []) =
         (Inr (alloc 0 + int (IndexSize P)), filled_block P (alloc 0) [v])"
    using take_unit_filled [of "[]" P v "alloc 0"] assms(2) by simp
  ultimately show ?thesis
    by (simp add: get_def take_at_def addBlock_def fresh_block_filled)
qed

lemma gets_filled:
  assumes "length vs + length cs \<le> BlockCap P"
  shows "gets P cs \<lparr>first_blk = [filled_block P a vs], total_block = t\<rparr> =
         (map (\<lambda>k. Inr (a + int k * int (UnitSize P) + int (IndexSize P)))
            [length vs ..< length vs + length cs],
          \<lparr>first_blk = [filled_block P a (vs @ map snd cs)], total_block = t\<rparr>)"
  using assms
proof (induction cs arbitrary: vs)
  case Nil
  show ?case by simp
next
  case (Cons c cs)
  have lt: "length vs < BlockCap P" using Cons.prems by simp
  have "length (vs @ [snd c]) + length cs \<le> BlockCap P" using Cons.prems by simp
  from Cons.IH [OF this] show ?case
    by (simp add: get_filled [OF lt] upt_rec [of "length vs"] del: upt_Suc)
qed

lemma ObjectPool_ctor_1:
  "ObjectPool_ctor P alloc 1 = Inr \<lparr>first_blk = [filled_block P (alloc 0) []], total_block = 1\<rparr>"
  by (simp add: ObjectPool_ctor_def addBlock_def fresh_block_filled)

lemma free_chain_length_le:
  "free_chain cap fuel us i = Some xs \<Longrightarrow> length xs \<le> fuel"
  by (induction fuel arbitrary: i xs) (auto split: if_splits)

lemma free_chain_bound:
  "free_chain cap fuel us i = Some xs \<Longrightarrow> k \<in> set xs \<Longrightarrow> k < length us"
  by (induction fuel arbitrary: i xs) (auto split: if_splits)

lemma free_chain_fuel:
  "free_chain cap fuel us i = Some xs \<Longrightarrow> length xs \<le> fuel' \<Longrightarrow>
   free_chain cap fuel' us i = Some xs"
proof (induction fuel arbitrary: i xs fuel')
  case 0
  then show ?case by (cases fuel') (auto split: if_splits)
next
  case (Suc fuel)
  show ?case
  proof (cases "i = int cap")
    case True
    with Suc.prems show ?thesis by (cases fuel') auto
  next
    case False
    with Suc.prems obtain xs' where xs': "xs = nat i # xs'" "0 \<le> i" "nat i < length us"
      "free_chain cap fuel us (unit_next (us ! nat i)) = Some xs'"
      by (auto split: if_splits)
    with Suc.prems(2) obtain f where f: "fuel' = Suc f" "length xs' \<le> f"
      by (cases fuel') auto
    from Suc.IH [OF xs'(4) f(2)] show ?thesis using False xs' f by simp
  qed
qed

lemma free_chain_update:
  "free_chain cap fuel us i = Some xs \<Longrightarrow> k \<notin> set xs \<Longrightarrow>
   free_chain cap fuel (us[k := u]) i = Some xs"
proof (induction fuel arbitrary: i xs)
  case 0
  then show ?case by simp
next
  case (Suc fuel)
  show ?case
  proof (cases "i = int cap")
    case True
    with Suc.prems show ?thesis by auto
  next
    case False
    with Suc.prems obtain xs' where xs': "xs = nat i # xs'" "0 \<le> i" "nat i < length us"
      "free_chain cap fuel us (unit_next (us ! nat i)) = Some xs'"
      by (auto split: if_splits)
    have "k \<noteq> nat i" "k \<notin> set xs'" using Suc.prems(2) xs'(1) by auto
    with Suc.IH [OF xs'(4)] show ?thesis using False xs' by simp
  qed
qed

lemma free_chain_mem_update:
  "free_chain cap fuel (us[k := (us ! k)\<lparr>mem := m\<rparr>]) i = free_chain cap fuel us i"
proof (induction fuel arbitrary: i)
  case 0
  show ?case by simp
next
  case (Suc fuel)
  have "unit_next ((us[k := (us ! k)\<lparr>mem := m\<rparr>]) ! j) = unit_next (us ! j)" if "j < length us" for j
    using that by (cases "j = k") simp_all
  then show ?case using Suc.IH by simp
qed

lemma distinct_length_less:
  assumes "distinct xs" "\<forall>j\<in>set xs. j < n" "k < n" "k \<notin> set xs"
  shows "length xs < n"
proof -
  have "set xs \<subseteq> {..<n} - {k}" using assms(2,4) by auto
  then have "card (set xs) \<le> card ({..<n} - {k})" by (intro card_mono) auto
  also have "\<dots> = n - 1" using assms(3) by simp
  finally show ?thesis using assms(1,3) by (simp add: distinct_card)
qed

lemma block_invE:
  assumes "block_inv P b"
  obtains xs where "free_list P b = Some xs" "distinct xs"
    "int (length xs) = int (BlockCap P) - used b"
    "\<forall>k\<in>set xs. mem (units b ! k) = None" "length (units b) = BlockCap P"
    "\<forall>k\<in>set xs. k < BlockCap P"
proof -
  from assms obtain xs where xs: "free_list P b = Some xs" "distinct xs"
    "int (length xs) = int (BlockCap P) - used b"
    "\<forall>k\<in>set xs. mem (units b ! k) = None" "length (units b) = BlockCap P"
    by (auto simp: block_inv_def split: option.splits)
  have "\<forall>k\<in>set xs. k < BlockCap P"
    using xs(1,5) free_chain_bound [of "BlockCap P" "BlockCap P" "units b" "first b" xs]
    by (auto simp: free_list_def)
  with xs show ?thesis by (rule that)
qed

lemma block_invI:
  assumes "free_list P b = Some xs" "distinct xs"
    "int (length xs) = int (BlockCap P) - used b"
    "\<forall>k\<in>set xs. mem (units b ! k) = None" "length (units b) = BlockCap P"
  shows "block_inv P b"
  using assms by (simp add: block_inv_def)

lemma block_inv_fresh: "block_inv P (fresh_block P a)"
proof -
  have f: "fully_free P (fresh_block P a)" by (rule fresh_block_fully_free)
  show ?thesis
  proof (rule block_invI)
    show "free_list P (fresh_block P a) = Some [0..<BlockCap P]"
      using f unfolding fully_free_def by blast
    show "distinct [0..<BlockCap P]" by simp
    have "used (fresh_block P a) = 0" using f unfolding fully_free_def by blast
    then show "int (length [0..<BlockCap P]) = int (BlockCap P) - used (fresh_block P a)"
      by simp
    show "\<forall>k\<in>set [0..<BlockCap P]. mem (units (fresh_block P a) ! k) = None"
      by (simp add: units_fresh_block)
    show "length (units (fresh_block P a)) = BlockCap P"
      by (simp add: units_fresh_block)
  qed
qed

lemma free_chain_Cons:
  assumes "free_chain cap fuel us i = Some (k # xs)"
  shows "i = int k \<and> k < length us \<and> int k \<noteq> int cap \<and>
         (\<exists>f. fuel = Suc f \<and> free_chain cap f us (unit_next (us ! k)) = Some xs)"
  using assms by (cases fuel) (auto split: if_splits)

lemma take_unit_inv:
  assumes "block_inv P b" "used b \<noteq> int (BlockCap P)"
  shows "\<exists>k xs. free_list P b = Some (k # xs) \<and> k < BlockCap P \<and> first b = int k \<and>
           take_unit P (Some v) b =
             (Inr (mem_addr P b k),
              b\<lparr>used := used b + 1,
                units := (units b)[k := (units b ! k)\<lparr>mem := Some v\<rparr>],
                first := unit_next (units b ! k)\<rparr>) \<and>
           free_list P (snd (take_unit P (Some v) b)) = Some xs \<and>
           block_inv P (snd (take_unit P (Some v) b))"
proof -
  from assms(1) obtain ys where ys: "free_list P b = Some ys" "distinct ys"
    "int (length ys) = int (BlockCap P) - used b"
    "\<forall>k\<in>set ys. mem (units b ! k) = None" "length (units b) = BlockCap P"
    "\<forall>k\<in>set ys. k < BlockCap P"
    by (rule block_invE)
  from ys(3) assms(2) obtain k xs where kx: "ys = k # xs" by (cases ys) auto
  let ?us = "units b"
  let ?b' = "b\<lparr>used := used b + 1,
                units := ?us[k := (?us ! k)\<lparr>mem := Some v\<rparr>],
                first := unit_next (?us ! k)\<rparr>"
  from ys(1) kx have ch: "free_chain (BlockCap P) (BlockCap P) ?us (first b) = Some (k # xs)"
    by (simp add: free_list_def)
  from free_chain_Cons [OF ch] obtain f where f: "first b = int k" "k < length ?us"
    "BlockCap P = Suc f" "free_chain (BlockCap P) f ?us (unit_next (?us ! k)) = Some xs"
    by auto
  have run: "take_unit P (Some v) b = (Inr (mem_addr P b k), ?b')"
    using f(1,2) by (simp add: take_unit_def Let_def mem_addr_def)
  have "length xs \<le> BlockCap P" using free_chain_length_le [OF f(4)] f(3) by simp
  from free_chain_fuel [OF f(4) this]
  have fl: "free_list P ?b' = Some xs"
    by (simp add: free_list_def free_chain_mem_update)
  have notin: "k \<notin> set xs" using ys(2) kx by simp
  have "mem (units ?b' ! j) = None" if "j \<in> set xs" for j
  proof -
    have "j \<noteq> k" using that notin by auto
    then show ?thesis using ys(4) kx that by simp
  qed
  then have "\<forall>j\<in>set xs. mem (units ?b' ! j) = None" by blast
  moreover have "int (length xs) = int (BlockCap P) - used ?b'" using ys(3) kx by simp
  moreover have "distinct xs" using ys(2) kx by simp
  moreover have "length (units ?b') = BlockCap P" using ys(5) by simp
  ultimately have "block_inv P ?b'" using fl by (intro block_invI [of P ?b' xs]) 
  then show ?thesis using ys(1) kx ys(6) f(1) run fl by simp
qed

lemma release_unit_inv:
  assumes "block_inv P b" "k < BlockCap P" "mem (units b ! k) \<noteq> None" "0 < UnitSize P"
  shows "\<exists>xs. free_list P b = Some xs \<and>
           release_unit P (mem_addr P b k) b =
             Inr (b\<lparr>used := used b - 1,
                    units := (units b)[k := \<lparr>unit_next = first b, mem = None\<rparr>],
                    first := int k\<rparr>) \<and>
           free_list P (b\<lparr>used := used b - 1,
                    units := (units b)[k := \<lparr>unit_next = first b, mem = None\<rparr>],
                    first := int k\<rparr>) = Some (k # xs) \<and>
           block_inv P (b\<lparr>used := used b - 1,
                    units := (units b)[k := \<lparr>unit_next = first b, mem = None\<rparr>],
                    first := int k\<rparr>)"
proof -
  from assms(1) obtain xs where xs: "free_list P b = Some xs" "distinct xs"
    "int (length xs) = int (BlockCap P) - used b"
    "\<forall>k\<in>set xs. mem (units b ! k) = None" "length (units b) = BlockCap P"
    "\<forall>k\<in>set xs. k < BlockCap P"
    by (rule block_invE)
  let ?us = "units b"
  let ?us' = "?us[k := \<lparr>unit_next = first b, mem = None\<rparr>]"
  let ?b' = "b\<lparr>used := used b - 1, units := ?us', first := int k\<rparr>"
  have notin: "k \<notin> set xs" using xs(4) assms(3) by auto
  obtain f where f: "BlockCap P = Suc f" using assms(2) by (cases "BlockCap P") auto
  have "length xs < BlockCap P" by (rule distinct_length_less [OF xs(2,6) assms(2) notin])
  then have "length xs \<le> f" using f by simp
  moreover have "free_chain (BlockCap P) (BlockCap P) ?us (first b) = Some xs"
    using xs(1) by (simp add: free_list_def)
  ultimately have "free_chain (BlockCap P) f ?us (first b) = Some xs"
    by (rule free_chain_fuel [rotated])
  from free_chain_update [OF this notin]
  have "free_chain (BlockCap P) f ?us' (first b) = Some xs" .
  then have fl: "free_list P ?b' = Some (k # xs)"
    using assms(2) xs(5) by (simp add: free_list_def f)
  have "length xs \<le> BlockCap P"
    using xs(1) free_chain_length_le [of "BlockCap P" "BlockCap P" "units b" "first b" xs]
    by (simp add: free_list_def)
  then have "0 \<le> used b" using xs(3) by linarith
  then have run: "release_unit P (mem_addr P b k) b = Inr ?b'"
    using assms(2,4) xs(5) by (simp add: release_unit_mem_addr dec_index_nonneg)
  have "mem (units ?b' ! j) = None" if "j \<in> set (k # xs)" for j
  proof (cases "j = k")
    case True
    then show ?thesis using xs(5) assms(2) by simp
  next
    case False
    then show ?thesis using xs(4) that by simp
  qed
  then have "\<forall>j\<in>set (k # xs). mem (units ?b' ! j) = None" by blast
  moreover have "int (length (k # xs)) = int (BlockCap P) - used ?b'" using xs(3) by simp
  moreover have "distinct (k # xs)" using xs(2) notin by simp
  moreover have "length (units ?b') = BlockCap P" using xs(5) by simp
  ultimately have "block_inv P ?b'" using fl by (intro block_invI [of P ?b' "k # xs"])
  then show ?thesis using xs(1) run fl by simp
qed

lemma apart_not_in_block:
  "apart P c b \<Longrightarrow> in_block P h b \<Longrightarrow> \<not> in_block P h c"
  by (auto simp: apart_def in_block_def)

lemma separate_before:
  "separate P (pre @ b # post) \<Longrightarrow> \<forall>c\<in>set pre. apart P c b"
  by (induction pre) auto

lemma separate_replace:
  "separate P (pre @ b # post) \<Longrightarrow> units_at b' = units_at b \<Longrightarrow>
   separate P (pre @ b' # post)"
  by (induction pre) (auto simp: apart_def)

lemma separate_subseq:
  "subseq bs' bs \<Longrightarrow> separate P bs \<Longrightarrow> separate P bs'"
proof (induction rule: list_emb.induct)
  case (list_emb_Nil ys)
  show ?case by simp
next
  case (list_emb_Cons xs ys y)
  then show ?case by simp
next
  case (list_emb_Cons2 x y xs ys)
  have "set xs \<subseteq> set ys"
    using list_emb_Cons2.hyps(2) by (auto elim: list_emb_set)
  with list_emb_Cons2 show ?case by auto
qed

lemma subseq_removeBlock_loop:
  "subseq (fst (removeBlock_loop n bs tot ret)) bs"
  by (induction n bs tot ret rule: removeBlock_loop.induct)
    (auto split: prod.splits)

lemma subseq_removeBlock:
  "subseq (first_blk (snd (removeBlock n p))) (first_blk p)"
proof (cases "first_blk p")
  case Nil
  then show ?thesis by (simp add: removeBlock_def)
next
  case (Cons h t)
  have s: "subseq (fst (removeBlock_loop n t (total_block p) 0)) t"
    by (rule subseq_removeBlock_loop)
  then show ?thesis
    by (auto simp: removeBlock_def Cons split: prod.splits)
qed

lemma set_subseq: "subseq xs ys \<Longrightarrow> set xs \<subseteq> set ys"
  by (auto elim: list_emb_set)

lemma blocks_inv_addBlock:
  "blocks_inv P p \<Longrightarrow> blocks_inv P (snd (addBlock P alloc n p))"
  by (auto simp: blocks_inv_def addBlock_def addBlock_loop_eq block_inv_fresh)

lemma blocks_inv_removeBlock:
  "blocks_inv P p \<Longrightarrow> blocks_inv P (snd (removeBlock n p))"
  using set_subseq [OF subseq_removeBlock [of n p]] by (auto simp: blocks_inv_def)

lemma blocks_inv_resize:
  "blocks_inv P p \<Longrightarrow> blocks_inv P (snd (resize P alloc n p))"
  using blocks_inv_addBlock [of P p alloc "n - total_block p"]
    blocks_inv_removeBlock [of P p "total_block p - n"]
  by (auto simp: resize_def split: prod.splits sum.splits)

lemma take_at_inv:
  assumes "blocks_inv P p" "i < length (first_blk p)"
    "used (first_blk p ! i) \<noteq> int (BlockCap P)"
  shows "\<exists>k xs. free_list P (first_blk p ! i) = Some (k # xs) \<and> k < BlockCap P \<and>
           take_at P (Some v) i p =
             (Inr (mem_addr P (first_blk p ! i) k),
              p\<lparr>first_blk := (first_blk p)[i := snd (take_unit P (Some v) (first_blk p ! i))]\<rparr>) \<and>
           mem (units (snd (take_unit P (Some v) (first_blk p ! i))) ! k) = Some v \<and>
           used (snd (take_unit P (Some v) (first_blk p ! i))) = used (first_blk p ! i) + 1 \<and>
           units_at (snd (take_unit P (Some v) (first_blk p ! i))) = units_at (first_blk p ! i) \<and>
           block_inv P (snd (take_unit P (Some v) (first_blk p ! i))) \<and>
           blocks_inv P (snd (take_at P (Some v) i p))"
proof -
  let ?b = "first_blk p ! i"
  have bi: "block_inv P ?b" using assms(1,2) by (simp add: blocks_inv_def)
  from take_unit_inv [OF bi assms(3), of v] obtain k xs where
    t: "free_list P ?b = Some (k # xs)" "k < BlockCap P"
    "take_unit P (Some v) ?b =
             (Inr (mem_addr P ?b k),
              ?b\<lparr>used := used ?b + 1,
                units := (units ?b)[k := (units ?b ! k)\<lparr>mem := Some v\<rparr>],
                first := unit_next (units ?b ! k)\<rparr>)"
    "block_inv P (snd (take_unit P (Some v) ?b))"
    by blast
  have len: "length (units ?b) = BlockCap P" using bi by (simp add: block_inv_def)
  have run: "take_at P (Some v) i p =
             (Inr (mem_addr P ?b k), p\<lparr>first_blk := (first_blk p)[i := snd (take_unit P (Some v) ?b)]\<rparr>)"
    by (simp add: take_at_def t(3))
  have "blocks_inv P (snd (take_at P (Some v) i p))"
    using assms(1) t(4) unfolding run blocks_inv_def
    by (auto dest!: set_update_subset_insert [THEN subsetD])
  then show ?thesis using t len run by (simp add: t(3))
qed

lemma take_unit_None: "fst (take_unit P None b) \<noteq> Inr h"
  by (simp add: take_unit_def Let_def)

lemma get_Inr_Some:
  assumes "get P alloc c p = (Inr h, p')"
  shows "\<exists>v. c = Some v"
proof (cases c)
  case None
  have "fst (take_at P None i q) \<noteq> Inr h" for i and q :: "'a ObjectPool"
    using take_unit_None [of P "first_blk q ! i" h]
    by (cases "take_unit P None (first_blk q ! i)") (simp add: take_at_def)
  then have "fst (get P alloc None p) \<noteq> Inr h"
    by (cases "first_blk p = []") (simp_all add: get_def split: option.splits)
  with assms None show ?thesis by simp
next
  case (Some v)
  then show ?thesis by blast
qed

lemma get_inv:
  assumes "blocks_inv P p" "0 < BlockCap P"
  shows "\<exists>p' i k. get P alloc (Some v) p = (Inr (mem_addr P (first_blk p' ! i) k), p') \<and>
           i < length (first_blk p') \<and> k < BlockCap P \<and>
           mem (units (first_blk p' ! i) ! k) = Some v \<and>
           block_inv P (first_blk p' ! i) \<and> blocks_inv P p'"
proof -
  define p1 where "p1 = (if first_blk p = [] then snd (addBlock P alloc 1 p) else p)"
  define kk :: nat where "kk = (if first_blk p = [] then 1 else 0)"
  have g: "get P alloc (Some v) p =
     (case get_scan P (first_blk p1) of
        Some i \<Rightarrow> take_at P (Some v) i p1
      | None \<Rightarrow> take_at P (Some v) 0 (snd (addBlock P (\<lambda>i. alloc (i + kk)) 1 p1)))"
    by (cases "first_blk p = []") (simp_all add: get_def p1_def kk_def cong: option.case_cong)
  have inv1: "blocks_inv P p1"
    using assms(1) blocks_inv_addBlock [of P p alloc 1] by (simp add: p1_def)
  have step: "\<exists>p' k. take_at P (Some v) i q = (Inr (mem_addr P (first_blk p' ! i) k), p') \<and>
           i < length (first_blk p') \<and> k < BlockCap P \<and>
           mem (units (first_blk p' ! i) ! k) = Some v \<and>
           block_inv P (first_blk p' ! i) \<and> blocks_inv P p'"
    if q: "blocks_inv P q" "i < length (first_blk q)" "used (first_blk q ! i) \<noteq> int (BlockCap P)"
    for q i
  proof -
    let ?b' = "snd (take_unit P (Some v) (first_blk q ! i))"
    let ?q' = "q\<lparr>first_blk := (first_blk q)[i := ?b']\<rparr>"
    from take_at_inv [OF q, of v] obtain k where
      t: "k < BlockCap P" "take_at P (Some v) i q = (Inr (mem_addr P (first_blk q ! i) k), ?q')"
      "mem (units ?b' ! k) = Some v" "units_at ?b' = units_at (first_blk q ! i)"
      "block_inv P ?b'" "blocks_inv P (snd (take_at P (Some v) i q))"
      by blast
    have nth: "first_blk ?q' ! i = ?b'" using q(2) by simp
    have "mem_addr P (first_blk q ! i) k = mem_addr P (first_blk ?q' ! i) k"
      by (simp only: nth mem_addr_def t(4))
    then show ?thesis
      using t q(2) nth
      by (intro exI [of _ ?q'] exI [of _ k]) simp
  qed
  show ?thesis
  proof (cases "get_scan P (first_blk p1)")
    case (Some i)
    then have "i < length (first_blk p1)" "used (first_blk p1 ! i) \<noteq> int (BlockCap P)"
      by (simp_all add: get_scan_Some_iff)
    from step [OF inv1 this] show ?thesis using g Some by auto
  next
    case None
    let ?q = "snd (addBlock P (\<lambda>i. alloc (i + kk)) 1 p1)"
    have "blocks_inv P ?q" using inv1 by (rule blocks_inv_addBlock)
    moreover have hd: "first_blk ?q ! 0 = fresh_block P (alloc kk)"
      by (simp add: addBlock_def)
    moreover have "0 < length (first_blk ?q)" by (simp add: addBlock_def)
    moreover have "used (fresh_block P (alloc kk)) \<noteq> int (BlockCap P)"
      using assms(2) by (simp add: fresh_block_def new_MemoryBlock_def)
    ultimately have "\<exists>p' k. take_at P (Some v) 0 ?q = (Inr (mem_addr P (first_blk p' ! 0) k), p') \<and>
           0 < length (first_blk p') \<and> k < BlockCap P \<and>
           mem (units (first_blk p' ! 0) ! k) = Some v \<and>
           block_inv P (first_blk p' ! 0) \<and> blocks_inv P p'"
      by (intro step) simp_all
    then show ?thesis using g None by auto
  qed
qed

lemma release_at:
  assumes "params_ok P" "separate P (first_blk p)" "i < length (first_blk p)"
    "block_inv P (first_blk p ! i)" "k < BlockCap P" "mem (units (first_blk p ! i) ! k) \<noteq> None"
  shows "\<exists>xs. free_list P (first_blk p ! i) = Some xs \<and>
           release P (mem_addr P (first_blk p ! i) k) p =
             (Inr (), p\<lparr>first_blk := (first_blk p)
                 [i := (first_blk p ! i)
                    \<lparr>used := used (first_blk p ! i) - 1,
                     units := (units (first_blk p ! i))
                        [k := \<lparr>unit_next = first (first_blk p ! i), mem = None\<rparr>],
                     first := int k\<rparr>]\<rparr>) \<and>
           free_list P ((first_blk p ! i)
                    \<lparr>used := used (first_blk p ! i) - 1,
                     units := (units (first_blk p ! i))
                        [k := \<lparr>unit_next = first (first_blk p ! i), mem = None\<rparr>],
                     first := int k\<rparr>) = Some (k # xs) \<and>
           block_inv P ((first_blk p ! i)
                    \<lparr>used := used (first_blk p ! i) - 1,
                     units := (units (first_blk p ! i))
                        [k := \<lparr>unit_next = first (first_blk p ! i), mem = None\<rparr>],
                     first := int k\<rparr>) \<and>
           separate P ((first_blk p)
                 [i := (first_blk p ! i)
                    \<lparr>used := used (first_blk p ! i) - 1,
                     units := (units (first_blk p ! i))
                        [k := \<lparr>unit_next = first (first_blk p ! i), mem = None\<rparr>],
                     first := int k\<rparr>])"
proof -
  let ?bs = "first_blk p"
  let ?b = "?bs ! i"
  let ?b' = "?b\<lparr>used := used ?b - 1,
                units := (units ?b)[k := \<lparr>unit_next = first ?b, mem = None\<rparr>],
                first := int k\<rparr>"
  let ?h = "mem_addr P ?b k"
  have ok: "0 < IndexSize P" "IndexSize P < UnitSize P" "0 < UnitSize P"
    using assms(1) by (auto simp: params_ok_def)
  from release_unit_inv [OF assms(4,5,6) ok(3)] obtain xs where
    r: "free_list P ?b = Some xs" "release_unit P ?h ?b = Inr ?b'"
    "free_list P ?b' = Some (k # xs)" "block_inv P ?b'"
    by blast
  have split: "?bs = take i ?bs @ ?b # drop (Suc i) ?bs"
    using assms(3) by (rule id_take_nth_drop)
  have upd: "?bs[i := ?b'] = take i ?bs @ ?b' # drop (Suc i) ?bs"
    using assms(3) by (rule upd_conv_take_nth_drop)
  have sep: "separate P (take i ?bs @ ?b # drop (Suc i) ?bs)"
    using assms(2) split by simp
  have inb: "in_block P ?h ?b" using ok(1,2) assms(5) by (rule mem_addr_in_block)
  have skip: "\<forall>c\<in>set (take i ?bs). \<not> in_block P ?h c"
    using separate_before [OF sep] apart_not_in_block [OF _ inb] by blast
  have "release_scan P ?h (take i ?bs @ ?b # drop (Suc i) ?bs) =
        Inr (take i ?bs @ ?b' # drop (Suc i) ?bs)"
    using inb r(2) by (simp add: release_scan_skip [OF skip])
  then have "release_scan P ?h ?bs = Inr (?bs[i := ?b'])"
    using split upd by simp
  then have run: "release P ?h p = (Inr (), p\<lparr>first_blk := ?bs[i := ?b']\<rparr>)"
    by (simp add: release_def)
  have "separate P (take i ?bs @ ?b' # drop (Suc i) ?bs)"
    using sep by (rule separate_replace) simp
  then have "separate P (?bs[i := ?b'])" using upd by simp
  then show ?thesis using r run by blast
qed

lemma release_inv:
  assumes "params_ok P" "separate P (first_blk p)" "blocks_inv P p" "live_handle P p h"
  shows "\<exists>p'. release P h p = (Inr (), p') \<and> blocks_inv P p' \<and> separate P (first_blk p')"
proof -
  from assms(4) obtain b k where bk: "b \<in> set (first_blk p)" "k < BlockCap P"
    "h = mem_addr P b k" "mem (units b ! k) \<noteq> None"
    by (auto simp: live_handle_def)
  from bk(1) obtain i where i: "i < length (first_blk p)" "first_blk p ! i = b"
    by (auto simp: in_set_conv_nth)
  have bi: "block_inv P (first_blk p ! i)" using assms(3) bk(1) i by (simp add: blocks_inv_def)
  let ?b' = "b\<lparr>used := used b - 1,
                units := (units b)[k := \<lparr>unit_next = first b, mem = None\<rparr>],
                first := int k\<rparr>"
  let ?p' = "p\<lparr>first_blk := (first_blk p)[i := ?b']\<rparr>"
  from release_at [OF assms(1,2) i(1) bi bk(2)] bk(4) i(2)
  have r: "release P h p = (Inr (), ?p')" "block_inv P ?b'" "separate P (first_blk ?p')"
    by (auto simp: bk(3))
  have "blocks_inv P ?p'"
    using assms(3) r(2) unfolding blocks_inv_def
    by (auto dest!: set_update_subset_insert [THEN subsetD])
  with r show ?thesis by blast
qed

lemma reachable_inv:
  fixes p :: "'a ObjectPool"
  assumes "params_ok P" "reachable P p"
  shows "blocks_inv P p \<and> separate P (first_blk p)"
  using assms(2)
proof (induction rule: reachable.induct)
  case (r_ctor alloc n p)
  have e: "blocks_inv P (\<lparr>first_blk = [], total_block = 0\<rparr> :: 'a ObjectPool)"
    by (simp add: blocks_inv_def)
  from r_ctor(1) have "snd (addBlock P alloc n \<lparr>first_blk = [], total_block = 0\<rparr>) = p"
    by (auto simp: ObjectPool_ctor_def split: prod.splits sum.splits)
  with blocks_inv_addBlock [OF e, of alloc n] r_ctor(2) show ?case by simp
next
  case (r_addBlock p alloc n p')
  then show ?case using blocks_inv_addBlock [of P p alloc n] by simp
next
  case (r_removeBlock p n r p')
  then show ?case
    using blocks_inv_removeBlock [of P p n] subseq_removeBlock [of n p] separate_subseq
    by fastforce
next
  case (r_resize p alloc n r p')
  then show ?case using blocks_inv_resize [of P p alloc n] by simp
next
  case (r_get p alloc c h p')
  from get_Inr_Some [OF r_get(2)] obtain v where v: "c = Some v" by blast
  have "0 < BlockCap P" using assms(1) by (simp add: params_ok_def)
  with r_get get_inv [of P p alloc v] show ?case unfolding v by auto
next
  case (r_release p h p')
  with release_inv [OF assms(1), of p h] show ?case by auto
qed

lemma params_ok_P4: "params_ok P4"
  by (simp add: params_ok_def P4_def)

lemma free_list_busy_block: "free_list P4 busy_block = Some [1, 2, 3]"
  by (simp add: free_list_def P4_def busy_block_def eval_nat_numeral)

lemma block_inv_busy_block: "block_inv P4 busy_block"
  by (simp add: block_inv_def free_list_busy_block) (simp add: P4_def busy_block_def)

lemma reachable_one_pool: "reachable P4 one_pool"
proof -
  let ?p0 = "\<lparr>first_blk = [filled_block P4 (alloc4 0) []], total_block = 1\<rparr> :: nat ObjectPool"
  have "[0..<4] = [0, 1, 2, Suc 2]" by (simp add: upt_rec)
  then have fb: "filled_block P4 (alloc4 0) [7] = busy_block"
    by (simp add: filled_block_def busy_block_def P4_def alloc4_def)
  have "reachable P4 ?p0"
    by (rule r_ctor [OF ObjectPool_ctor_1]) simp
  moreover have "get P4 alloc4 (Some 7) ?p0 = (Inr 1001, one_pool)"
  proof -
    have "length ([] :: nat list) < BlockCap P4" by (simp add: P4_def)
    from get_filled [OF this, of alloc4 7 "alloc4 0" 1]
    have "get P4 alloc4 (Some 7) ?p0 =
          (Inr (alloc4 0 + int (IndexSize P4)),
           \<lparr>first_blk = [filled_block P4 (alloc4 0) [7]], total_block = 1\<rparr>)"
      by simp
    then show ?thesis by (simp add: fb one_pool_def) (simp add: P4_def alloc4_def)
  qed
  moreover have "separate P4 (first_blk one_pool)" by (simp add: one_pool_def)
  ultimately show ?thesis by (rule r_get)
qed

lemma block_inv_full_block: "block_inv P4 full_block"
proof -
  have "free_list P4 full_block = Some []"
    by (simp add: free_list_def P4_def full_block_def eval_nat_numeral)
  then show ?thesis by (simp add: block_inv_def) (simp add: P4_def full_block_def)
qed

lemma fresh_block_P4: "fresh_block P4 1000 = fresh4"
  by (simp add: fresh_block_def new_MemoryBlock_def P4_def fresh4_def eval_nat_numeral)

section \<open>The claims\<close>

subsection \<open>C1: the first BlockCap calls of get\<close>

text \<open>
  C1: on the pool that \<^verbatim>\<open>ObjectPool(1)\<close> builds (with \<^verbatim>\<open>BlockCap > 0\<close>), the first \<open>k \<le> BlockCap\<close>
  calls of \<^verbatim>\<open>get\<close> return the object addresses of units \<open>0, \<dots>, k - 1\<close> of the one block
  and leave \<^verbatim>\<open>total_block_\<close> at 1 and the list at one block; the next call after \<^verbatim>\<open>BlockCap\<close>
  of them raises \<^verbatim>\<open>total_block_\<close> to 2, puts one new block before the old one and returns
  the address of the object it constructs in unit 0 of that new head block. The scan of
  \<^verbatim>\<open>get\<close> stops at the first block from the head whose \<^verbatim>\<open>used\<close> is not \<^verbatim>\<open>BlockCap\<close>.
\<close>

theorem get_fills_first_block_then_adds_one:
  assumes "0 < BlockCap P" "length cs = BlockCap P"
  shows "\<exists>p0 p1 p2.
           ObjectPool_ctor P alloc0 1 = Inr p0 \<and> total_block p0 = 1 \<and>
           (\<forall>k\<le>BlockCap P.
              fst (gets P (take k cs) p0) =
                map (\<lambda>j. Inr (alloc0 0 + int j * int (UnitSize P) + int (IndexSize P))) [0..<k] \<and>
              total_block (snd (gets P (take k cs) p0)) = 1 \<and>
              length (first_blk (snd (gets P (take k cs) p0))) = 1) \<and>
           gets P cs p0 =
             (map (\<lambda>j. Inr (alloc0 0 + int j * int (UnitSize P) + int (IndexSize P)))
                [0..<BlockCap P], p1) \<and>
           get P alloc (Some v) p1 = (Inr (alloc 0 + int (IndexSize P)), p2) \<and>
           total_block p2 = 2 \<and> length (first_blk p2) = 2 \<and> tl (first_blk p2) = first_blk p1 \<and>
           units_at (hd (first_blk p2)) = alloc 0 \<and> used (hd (first_blk p2)) = 1 \<and>
           alloc 0 + int (IndexSize P) = mem_addr P (hd (first_blk p2)) 0 \<and>
           mem (units (hd (first_blk p2)) ! 0) = Some v \<and>
           (get_scan P bs = Some i \<longleftrightarrow>
              i < length bs \<and> used (bs ! i) \<noteq> int (BlockCap P) \<and>
              (\<forall>j<i. used (bs ! j) = int (BlockCap P)))"
proof -
  let ?a = "alloc0 0"
  let ?h = "\<lambda>j. Inr (?a + int j * int (UnitSize P) + int (IndexSize P)) :: error + addr"
  let ?p0 = "\<lparr>first_blk = [filled_block P ?a []], total_block = 1\<rparr> :: 'a ObjectPool"
  let ?p1 = "\<lparr>first_blk = [filled_block P ?a (map snd cs)], total_block = 1\<rparr> :: 'a ObjectPool"
  let ?p2 = "\<lparr>first_blk = [filled_block P (alloc 0) [v], filled_block P ?a (map snd cs)],
              total_block = 1 + 1\<rparr> :: 'a ObjectPool"
  have run: "gets P (take k cs) ?p0 =
             (map ?h [0..<k], \<lparr>first_blk = [filled_block P ?a (map snd (take k cs))], total_block = 1\<rparr>)"
    if "k \<le> BlockCap P" for k
    using gets_filled [of "[]" "take k cs" P ?a 1] that assms(2) by (simp add: min_absorb2)
  have all: "gets P cs ?p0 = (map ?h [0..<BlockCap P], ?p1)"
    using run [of "BlockCap P"] assms(2) by simp
  have last: "get P alloc (Some v) ?p1 = (Inr (alloc 0 + int (IndexSize P)), ?p2)"
    using get_full [of "map snd cs" P alloc v ?a 1] assms by simp
  have new: "units_at (filled_block P (alloc 0) [v]) = alloc 0"
    "used (filled_block P (alloc 0) [v]) = 1"
    "alloc 0 + int (IndexSize P) = mem_addr P (filled_block P (alloc 0) [v]) 0"
    "mem (units (filled_block P (alloc 0) [v]) ! 0) = Some v"
    using assms(1) by (simp_all add: filled_block_def mem_addr_def)
  show ?thesis
    apply (rule exI [of _ ?p0])
    apply (rule exI [of _ ?p1])
    apply (rule exI [of _ ?p2])
    apply (intro conjI)
                apply (rule ObjectPool_ctor_1)
               apply simp
              apply (simp add: run)
             apply (rule all)
            apply (rule last)
           apply simp
          apply simp
         apply simp
        apply (simp add: new)
       apply (simp add: new)
      apply (simp add: new(3))
     apply (simp add: new)
    apply (rule get_scan_Some_iff)
    done
qed

theorem get_fills_first_block_then_adds_one_witness:
  "0 < BlockCap P4 \<and> length calls4 = BlockCap P4 \<and>
   (\<exists>p0 p1 p2. ObjectPool_ctor P4 alloc4 1 = Inr p0 \<and>
      gets P4 calls4 p0 = ([Inr 1001, Inr 1010, Inr 1019, Inr 1028], p1) \<and>
      total_block p1 = 1 \<and>
      get P4 (\<lambda>i. 2000) (Some 50) p1 = (Inr 2001, p2) \<and>
      total_block p2 = 2 \<and> length (first_blk p2) = 2 \<and> units_at (hd (first_blk p2)) = 2000)"
proof -
  have h: "0 < BlockCap P4" "length calls4 = BlockCap P4"
    by (simp_all add: P4_def calls4_def)
  from get_fills_first_block_then_adds_one [OF h, of alloc4 "\<lambda>i. 2000" 50 "[]" 0]
  obtain p0 p1 p2 where r:
    "ObjectPool_ctor P4 alloc4 1 = Inr p0"
    "\<forall>k\<le>BlockCap P4. total_block (snd (gets P4 (take k calls4) p0)) = 1"
    "gets P4 calls4 p0 =
       (map (\<lambda>j. Inr (alloc4 0 + int j * int (UnitSize P4) + int (IndexSize P4)))
          [0..<BlockCap P4], p1)"
    "get P4 (\<lambda>i. 2000) (Some 50) p1 = (Inr (2000 + int (IndexSize P4)), p2)"
    "total_block p2 = 2" "length (first_blk p2) = 2" "units_at (hd (first_blk p2)) = 2000"
    by auto
  have "[0..<4] = [0, 1, 2, Suc 2]" by (simp add: upt_rec)
  then have 1: "gets P4 calls4 p0 = ([Inr 1001, Inr 1010, Inr 1019, Inr 1028], p1)"
    using r(3) by (simp add: P4_def alloc4_def)
  have "total_block (snd (gets P4 (take (BlockCap P4) calls4) p0)) = 1"
    using r(2) by blast
  then have 2: "total_block p1 = 1" using h(2) r(3) by simp
  have 3: "get P4 (\<lambda>i. 2000) (Some 50) p1 = (Inr 2001, p2)" using r(4) by (simp add: P4_def)
  show ?thesis
    using h r(1) 1 2 3 r(5,6,7)
    by (intro conjI exI [of _ p0] exI [of _ p1] exI [of _ p2]) assumption+
qed

subsection \<open>C2: release and the unknown pointer\<close>




subsection \<open>C3: the free list of every block of every reachable pool\<close>

text \<open>
  C3, as amended: in every pool that the constructor and sequences of \<^verbatim>\<open>addBlock\<close>,
  \<^verbatim>\<open>removeBlock\<close>, \<^verbatim>\<open>resize\<close>, \<^verbatim>\<open>get\<close> and \<^verbatim>\<open>release\<close> (on live handles) produce while every
  call returns normally, so that no constructor call inside \<^verbatim>\<open>get\<close> throws, for sizes of a
  real instance and a heap that hands out memory apart from the live blocks, every block
  has a free list
  from \<^verbatim>\<open>first\<close> along the link fields to the sentinel, with \<^verbatim>\<open>BlockCap - used\<close> entries, all
  different, all indices of units that hold no object; so \<open>0 \<le> used \<le> BlockCap\<close>.
\<close>

theorem reachable_free_list_invariant:
  assumes "params_ok P" "reachable P p" "b \<in> set (first_blk p)"
  shows "\<exists>xs. free_list P b = Some xs \<and> distinct xs \<and>
           int (length xs) = int (BlockCap P) - used b \<and>
           (\<forall>k\<in>set xs. k < BlockCap P \<and> mem (units b ! k) = None) \<and>
           0 \<le> used b \<and> used b \<le> int (BlockCap P)"
proof -
  have "block_inv P b"
    using reachable_inv [OF assms(1,2)] assms(3) by (simp add: blocks_inv_def)
  then obtain xs where xs: "free_list P b = Some xs" "distinct xs"
    "int (length xs) = int (BlockCap P) - used b"
    "\<forall>k\<in>set xs. mem (units b ! k) = None" "length (units b) = BlockCap P"
    "\<forall>k\<in>set xs. k < BlockCap P"
    by (rule block_invE)
  have "length xs \<le> BlockCap P"
    using xs(1) free_chain_length_le [of "BlockCap P" "BlockCap P" "units b" "first b" xs]
    by (simp add: free_list_def)
  then have "0 \<le> used b \<and> used b \<le> int (BlockCap P)" using xs(3) by linarith
  with xs show ?thesis by blast
qed

theorem reachable_free_list_invariant_witness:
  "params_ok P4 \<and> reachable P4 one_pool \<and> busy_block \<in> set (first_blk one_pool) \<and>
   free_list P4 busy_block = Some [1, 2, 3] \<and> used busy_block = 1 \<and>
   (\<exists>xs. free_list P4 busy_block = Some xs \<and> distinct xs \<and>
      int (length xs) = int (BlockCap P4) - used busy_block)"
proof -
  have m: "busy_block \<in> set (first_blk one_pool)" by (simp add: one_pool_def)
  from reachable_free_list_invariant [OF params_ok_P4 reachable_one_pool m]
  have "\<exists>xs. free_list P4 busy_block = Some xs \<and> distinct xs \<and>
      int (length xs) = int (BlockCap P4) - used busy_block"
    by blast
  moreover have "used busy_block = 1" by (simp add: busy_block_def)
  ultimately show ?thesis
    using params_ok_P4 reachable_one_pool m free_list_busy_block by blast
qed

text \<open>
  C3 as stated covers every sequence of the operations. \<^verbatim>\<open>get\<close> raises \<^verbatim>\<open>used\<close> before it
  calls the constructor and advances \<^verbatim>\<open>first\<close> after it, with nothing to undo the first when
  the constructor throws: on the pool of \<^verbatim>\<open>ObjectPool(1)\<close> such a \<^verbatim>\<open>get\<close> leaves a block with
  \<^verbatim>\<open>used\<close> 1 whose free list still has all four units.
\<close>

theorem throwing_constructor_counterexample:
  "ObjectPool_ctor P4 alloc4 1 = Inr \<lparr>first_blk = [fresh4], total_block = 1\<rparr> \<and>
   get P4 alloc4 None \<lparr>first_blk = [fresh4], total_block = 1\<rparr> =
     (Inl ConstructorException, \<lparr>first_blk = [thrown_block], total_block = 1\<rparr>) \<and>
   free_list P4 thrown_block = Some [0, 1, 2, 3] \<and>
   used thrown_block = 1 \<and>
   int (length [0, 1, 2, 3 :: nat]) \<noteq> int (BlockCap P4) - used thrown_block"
proof -
  have 1: "ObjectPool_ctor P4 alloc4 1 = Inr \<lparr>first_blk = [fresh4], total_block = 1\<rparr>"
    using fresh_block_P4 by (simp add: ObjectPool_ctor_def addBlock_def alloc4_def)
  have 2: "get P4 alloc4 None \<lparr>first_blk = [fresh4], total_block = 1\<rparr> =
     (Inl ConstructorException, \<lparr>first_blk = [thrown_block], total_block = 1\<rparr>)"
    by (simp add: get_def take_at_def take_unit_def fresh4_def thrown_block_def P4_def)
  have 3: "free_list P4 thrown_block = Some [0, 1, 2, 3]"
    by (simp add: free_list_def P4_def thrown_block_def eval_nat_numeral)
  have 4: "used thrown_block = 1" by (simp add: thrown_block_def)
  have 5: "int (length [0, 1, 2, 3 :: nat]) \<noteq> int (BlockCap P4) - used thrown_block"
    by (simp add: P4_def thrown_block_def)
  from 1 2 3 4 5 show ?thesis by blast
qed

subsection \<open>C4: removeBlock\<close>

text \<open>
  C4, as amended: on a pool whose \<^verbatim>\<open>total_block_\<close> counts its blocks, as it does in every
  pool that a constructor with a block count builds, \<^verbatim>\<open>removeBlock(n)\<close> with \<open>n > 0\<close>
  returns \<open>min n e\<close>, where \<open>e\<close> is the number of blocks with \<^verbatim>\<open>used == 0\<close>, removes that many
  blocks and lowers \<^verbatim>\<open>total_block_\<close> by that number. The blocks that stay keep their order,
  every block with \<^verbatim>\<open>used\<close> other than 0 stays, and the list left is the one of
  \<open>removeBlock_spec\<close>: the head goes last.
\<close>

theorem removeBlock_removes_only_empty_blocks:
  assumes "0 < n" "counted p"
  shows "\<exists>r p'. removeBlock n p = (Inr r, p') \<and>
           unat r = min (unat n) (empties (first_blk p)) \<and>
           total_block p' = total_block p - r \<and>
           length (first_blk p') + unat r = length (first_blk p) \<and>
           counted p' \<and>
           subseq (first_blk p') (first_blk p) \<and>
           filter (\<lambda>b. used b \<noteq> 0) (first_blk p') = filter (\<lambda>b. used b \<noteq> 0) (first_blk p) \<and>
           first_blk p' = removeBlock_spec (unat n) (first_blk p) \<and>
           (0 < m \<longrightarrow> (\<exists>q. ObjectPool_ctor P alloc m = Inr q \<and> counted q))"
proof -
  have ctor: "\<exists>q. ObjectPool_ctor P alloc m = Inr q \<and> counted q" if "0 < m"
    by (simp add: ObjectPool_ctor_pos [OF that] counted_def)
  let ?m = "min (unat n) (empties (first_blk p))"
  let ?r = "of_nat ?m :: size_t"
  let ?p' = "p\<lparr>first_blk := removeBlock_spec (unat n) (first_blk p),
               total_block := total_block p - ?r\<rparr>"
  have run: "removeBlock n p = (Inr ?r, ?p')" by (rule removeBlock_eq [OF assms])
  have "?m < 2 ^ LENGTH(64)" using unsigned_less [of n, where ?'a = nat] by simp
  then have um: "unat ?r = ?m" by (simp add: unat_of_nat del: of_nat_min)
  have len: "length (first_blk ?p') + ?m = length (first_blk p)"
    using length_removeBlock_spec [of "unat n" "first_blk p"] by simp
  have "?m \<le> unat (total_block p)"
    using assms(2) empties_le_length [of "first_blk p"] by (simp add: counted_def)
  then have "?r \<le> total_block p" by (simp only: word_le_nat_alt um)
  then have "unat (total_block p - ?r) = unat (total_block p) - ?m"
    by (simp only: unat_sub um)
  then have cnt: "counted ?p'" using assms(2) len by (simp add: counted_def del: of_nat_min)
  show ?thesis
    apply (rule exI [of _ ?r])
    apply (rule exI [of _ ?p'])
    apply (intro conjI impI)
    using run um len cnt
            apply (simp_all add: subseq_removeBlock_spec filter_removeBlock_spec
        del: of_nat_min)[8]
    apply (erule ctor)
    done
qed

theorem removeBlock_removes_only_empty_blocks_witness:
  "(0::size_t) < 2 \<and> counted two_pool \<and>
   (\<exists>r p'. removeBlock 2 two_pool = (Inr r, p') \<and> r = 1 \<and>
      first_blk p' = [busy_block] \<and> total_block p' = 1)"
proof -
  have h: "(0::size_t) < 2" by simp
  have c: "counted two_pool" by (simp add: counted_def two_pool_def)
  have u: "used (fresh_block P4 1100 :: nat MemoryBlock) = 0"
    by (simp add: fresh_block_def new_MemoryBlock_def)
  have e: "empties (first_blk two_pool) = 1"
    by (simp add: empties_def two_pool_def busy_block_def u)
  from removeBlock_removes_only_empty_blocks [OF h c, where m = 1 and P = P4 and alloc = alloc4]
  obtain r p' where r: "removeBlock 2 two_pool = (Inr r, p')"
    "unat r = min (unat (2::size_t)) (empties (first_blk two_pool))"
    "total_block p' = total_block two_pool - r"
    "first_blk p' = removeBlock_spec (unat (2::size_t)) (first_blk two_pool)"
    by auto
  have r1: "r = 1" using r(2) e by (simp add: word_unat_eq_iff)
  have "drop_empty 2 [busy_block] = [busy_block]"
    by (simp add: numeral_2_eq_2 busy_block_def)
  then have f: "first_blk p' = [busy_block]"
    using r(4) by (simp add: removeBlock_spec_def two_pool_def u empties_def busy_block_def)
  have t: "total_block p' = 1" using r(3) r1 by (simp add: two_pool_def)
  show ?thesis using h c r(1) r1 f t by (intro conjI exI [of _ r] exI [of _ p']) assumption+
qed

text \<open>
  C4 as stated speaks of every pool state. Where \<^verbatim>\<open>total_block_\<close> does not count the blocks
  the claim fails: with one empty block in the list and \<^verbatim>\<open>total_block_\<close> 0 (what
  \<^verbatim>\<open>addBlock(2)\<close> leaves of a pool without blocks when its second \<^verbatim>\<open>new\<close> throws),
  \<^verbatim>\<open>removeBlock(1)\<close> removes nothing and returns 0; with a null head and \<^verbatim>\<open>total_block_\<close> 7
  (the pool moved from of C5) it reads through the null pointer.
\<close>

theorem removeBlock_uncounted_counterexample:
  "empties (first_blk uncounted_pool) = 1 \<and>
   min (unat (1 :: size_t)) (empties (first_blk uncounted_pool)) = 1 \<and>
   removeBlock 1 uncounted_pool = (Inr 0, uncounted_pool) \<and>
   removeBlock 1 \<lparr>first_blk = [], total_block = 7\<rparr> =
     (Inl UndefinedBehaviour, \<lparr>first_blk = ([] :: nat MemoryBlock list), total_block = 7\<rparr>)"
  by (simp add: removeBlock_def uncounted_pool_def empties_def fresh4_def)

subsection \<open>C5: move construction\<close>

text \<open>
  C5 says that after move-constructing a pool \<open>B\<close> from a pool \<open>A\<close>, \<open>B\<close> owns the block list
  of \<open>A\<close> and \<open>A\<close> is empty (null head, \<^verbatim>\<open>total_block_\<close> 0). The move constructor swaps with
  members it never initialised, so \<open>A\<close> receives whatever the storage of \<open>B\<close> held: here a
  null head and a block count of 7, which is not an empty pool.
\<close>

theorem move_ctor_hands_uninitialised_members_to_source:
  "ObjectPool_move \<lparr>first_blk = [], total_block = 7\<rparr>
     \<lparr>first_blk = [fresh_block P4 1000], total_block = 1\<rparr>
   = (\<lparr>first_blk = [fresh_block P4 1000], total_block = 1\<rparr>,
      \<lparr>first_blk = ([] :: nat MemoryBlock list), total_block = 7\<rparr>)"
  by (simp add: ObjectPool_move_def swap_pool_def)

subsection \<open>C6: capacity\<close>



subsection \<open>C7: a released unit is the next one handed out\<close>

text \<open>
  C7: let \<open>h\<close> be the address of the object in unit \<open>k\<close> of block \<open>i\<close> of a pool, the unit
  holding an object, as after a \<^verbatim>\<open>get\<close> that returned \<open>h\<close> (the last part: on a pool whose
  blocks satisfy the invariant, \<^verbatim>\<open>get\<close> returns such an address). With the blocks apart in
  memory and block \<open>i\<close> satisfying the block invariant, \<^verbatim>\<open>release(h)\<close> returns normally, leaves
  the unit without object and puts \<open>k\<close> before the former free list of the block. If all
  blocks before block \<open>i\<close> are full, the next \<^verbatim>\<open>get\<close> takes block \<open>i\<close>, constructs its
  object in unit \<open>k\<close> and returns \<open>h\<close> again.
\<close>

theorem released_unit_is_reused:
  assumes "params_ok P" "separate P (first_blk p)" "i < length (first_blk p)"
    "block_inv P (first_blk p ! i)" "k < BlockCap P"
    "mem (units (first_blk p ! i) ! k) \<noteq> None" "h = mem_addr P (first_blk p ! i) k"
  shows "\<exists>p1 xs. release P h p = (Inr (), p1) \<and>
           length (first_blk p1) = length (first_blk p) \<and>
           free_list P (first_blk p ! i) = Some xs \<and>
           free_list P (first_blk p1 ! i) = Some (k # xs) \<and>
           first (first_blk p1 ! i) = int k \<and>
           mem (units (first_blk p1 ! i) ! k) = None \<and>
           used (first_blk p1 ! i) = used (first_blk p ! i) - 1 \<and>
           ((\<forall>j<i. used (first_blk p ! j) = int (BlockCap P)) \<longrightarrow>
              (\<exists>p2. get P alloc (Some v) p1 = (Inr h, p2) \<and>
                 mem (units (first_blk p2 ! i) ! k) = Some v \<and>
                 used (first_blk p2 ! i) = used (first_blk p ! i) \<and>
                 free_list P (first_blk p2 ! i) = Some xs)) \<and>
           (blocks_inv P q \<longrightarrow>
              (\<exists>q' i' k'. get P alloc' (Some v') q = (Inr (mem_addr P (first_blk q' ! i') k'), q') \<and>
                 i' < length (first_blk q') \<and> k' < BlockCap P \<and>
                 mem (units (first_blk q' ! i') ! k') = Some v' \<and>
                 block_inv P (first_blk q' ! i')))"
proof -
  let ?bs = "first_blk p"
  let ?b = "?bs ! i"
  let ?b' = "?b\<lparr>used := used ?b - 1,
                units := (units ?b)[k := \<lparr>unit_next = first ?b, mem = None\<rparr>],
                first := int k\<rparr>"
  let ?p1 = "p\<lparr>first_blk := ?bs[i := ?b']\<rparr>"
  from release_at [OF assms(1,2,3,4,5,6)] obtain xs where
    r: "free_list P ?b = Some xs" "release P h p = (Inr (), ?p1)"
    "free_list P ?b' = Some (k # xs)" "block_inv P ?b'"
    unfolding assms(7) by blast
  have len: "length (units ?b) = BlockCap P" using assms(4) by (simp add: block_inv_def)
  have nth1: "first_blk ?p1 ! i = ?b'" using assms(3) by simp
  have cap: "0 < BlockCap P" using assms(5) by simp
  have part1: "length (first_blk ?p1) = length ?bs" "first (first_blk ?p1 ! i) = int k"
    "mem (units (first_blk ?p1 ! i) ! k) = None" "used (first_blk ?p1 ! i) = used ?b - 1"
    using assms(3,5) len by simp_all
  have part2: "\<exists>p2. get P alloc (Some v) ?p1 = (Inr h, p2) \<and>
                 mem (units (first_blk p2 ! i) ! k) = Some v \<and>
                 used (first_blk p2 ! i) = used ?b \<and>
                 free_list P (first_blk p2 ! i) = Some xs"
    if full: "\<forall>j<i. used (?bs ! j) = int (BlockCap P)"
  proof -
    from assms(4) obtain ys where ys: "free_list P ?b = Some ys"
      "int (length ys) = int (BlockCap P) - used ?b"
      by (rule block_invE)
    then have "used ?b \<le> int (BlockCap P)" by linarith
    then have nf: "used ?b' \<noteq> int (BlockCap P)" by simp
    have "used (first_blk ?p1 ! j) = int (BlockCap P)" if "j < i" for j
      using that full assms(3) by simp
    moreover have "used (first_blk ?p1 ! i) \<noteq> int (BlockCap P)"
      unfolding nth1 by (rule nf)
    moreover have "i < length (first_blk ?p1)" using assms(3) by simp
    ultimately have "get_scan P (first_blk ?p1) = Some i"
      unfolding get_scan_Some_iff by blast
    moreover have "first_blk ?p1 \<noteq> []" using assms(3) by auto
    ultimately have g: "get P alloc (Some v) ?p1 = take_at P (Some v) i ?p1"
      by (simp add: get_def)
    from take_unit_inv [OF r(4) nf, of v] obtain k' xs' where
      t0: "free_list P ?b' = Some (k' # xs')"
      "take_unit P (Some v) ?b' =
             (Inr (mem_addr P ?b' k'),
              ?b'\<lparr>used := used ?b' + 1,
                units := (units ?b')[k' := (units ?b' ! k')\<lparr>mem := Some v\<rparr>],
                first := unit_next (units ?b' ! k')\<rparr>)"
      "free_list P (snd (take_unit P (Some v) ?b')) = Some xs'"
      by blast
    from t0(1) r(3) have same: "k' = k" "xs' = xs" by simp_all
    have t: "take_unit P (Some v) ?b' =
             (Inr (mem_addr P ?b' k),
              ?b'\<lparr>used := used ?b' + 1,
                units := (units ?b')[k := (units ?b' ! k)\<lparr>mem := Some v\<rparr>],
                first := unit_next (units ?b' ! k)\<rparr>)"
      "free_list P (snd (take_unit P (Some v) ?b')) = Some xs"
      using t0(2,3) unfolding same by blast+
    let ?b2 = "snd (take_unit P (Some v) ?b')"
    let ?p2 = "?p1\<lparr>first_blk := (first_blk ?p1)[i := ?b2]\<rparr>"
    have h: "mem_addr P ?b' k = h" by (simp add: assms(7) mem_addr_def)
    have run: "get P alloc (Some v) ?p1 = (Inr h, ?p2)"
      unfolding g take_at_def nth1 using t(1) h by simp
    have nth2: "first_blk ?p2 ! i = ?b2" using assms(3) by simp
    have "mem (units ?b2 ! k) = Some v" "used ?b2 = used ?b"
      using assms(5) len by (simp_all add: t(1))
    then show ?thesis using run t(2) nth2 by (intro exI [of _ ?p2]) simp
  qed
  have part3: "\<exists>q' i' k'. get P alloc' (Some v') q = (Inr (mem_addr P (first_blk q' ! i') k'), q') \<and>
                 i' < length (first_blk q') \<and> k' < BlockCap P \<and>
                 mem (units (first_blk q' ! i') ! k') = Some v' \<and>
                 block_inv P (first_blk q' ! i')"
    if "blocks_inv P q"
    using get_inv [OF that cap, of alloc' v'] by blast
  show ?thesis
  proof (intro exI [of _ ?p1] exI [of _ xs] conjI)
    show "release P h p = (Inr (), ?p1)" by (rule r(2))
    show "length (first_blk ?p1) = length ?bs" by (rule part1(1))
    show "free_list P ?b = Some xs" by (rule r(1))
    show "free_list P (first_blk ?p1 ! i) = Some (k # xs)" unfolding nth1 by (rule r(3))
    show "first (first_blk ?p1 ! i) = int k" by (rule part1(2))
    show "mem (units (first_blk ?p1 ! i) ! k) = None" by (rule part1(3))
    show "used (first_blk ?p1 ! i) = used ?b - 1" by (rule part1(4))
    show "(\<forall>j<i. used (?bs ! j) = int (BlockCap P)) \<longrightarrow>
          (\<exists>p2. get P alloc (Some v) ?p1 = (Inr h, p2) \<and>
                 mem (units (first_blk p2 ! i) ! k) = Some v \<and>
                 used (first_blk p2 ! i) = used ?b \<and>
                 free_list P (first_blk p2 ! i) = Some xs)"
      by (rule impI) (rule part2)
    show "blocks_inv P q \<longrightarrow>
          (\<exists>q' i' k'. get P alloc' (Some v') q = (Inr (mem_addr P (first_blk q' ! i') k'), q') \<and>
                 i' < length (first_blk q') \<and> k' < BlockCap P \<and>
                 mem (units (first_blk q' ! i') ! k') = Some v' \<and>
                 block_inv P (first_blk q' ! i'))"
      by (rule impI) (rule part3)
  qed
qed

theorem released_unit_is_reused_witness:
  "params_ok P4 \<and> separate P4 (first_blk full_pool) \<and> 1 < length (first_blk full_pool) \<and>
   block_inv P4 (first_blk full_pool ! 1) \<and> 0 < BlockCap P4 \<and>
   mem (units (first_blk full_pool ! 1) ! 0) \<noteq> None \<and>
   1001 = mem_addr P4 (first_blk full_pool ! 1) 0 \<and>
   used (first_blk full_pool ! 0) = int (BlockCap P4) \<and>
   blocks_inv P4 full_pool \<and>
   (\<exists>p1 p2. release P4 1001 full_pool = (Inr (), p1) \<and>
      free_list P4 (first_blk p1 ! 1) = Some [0, 1, 2, 3] \<and>
      get P4 alloc4 (Some 9) p1 = (Inr 1001, p2) \<and>
      mem (units (first_blk p2 ! 1) ! 0) = Some 9)"
proof -
  have a: "separate P4 (first_blk full_pool)" "1 < length (first_blk full_pool)"
    "block_inv P4 (first_blk full_pool ! 1)" "0 < BlockCap P4"
    "mem (units (first_blk full_pool ! 1) ! 0) \<noteq> None"
    "1001 = mem_addr P4 (first_blk full_pool ! 1) 0"
    by (simp_all add: full_pool_def block_inv_busy_block)
      (simp_all add: P4_def apart_def full_block_def busy_block_def mem_addr_def)
  have f: "\<forall>j<1. used (first_blk full_pool ! j) = int (BlockCap P4)"
    by (simp add: full_pool_def full_block_def P4_def)
  have b: "blocks_inv P4 full_pool"
    by (simp add: blocks_inv_def full_pool_def block_inv_busy_block block_inv_full_block)
  from released_unit_is_reused [OF params_ok_P4 a, of alloc4 9 full_pool alloc4 0] f
  obtain p1 xs p2 where r: "release P4 1001 full_pool = (Inr (), p1)"
    "free_list P4 (first_blk full_pool ! 1) = Some xs"
    "free_list P4 (first_blk p1 ! 1) = Some (0 # xs)"
    "get P4 alloc4 (Some 9) p1 = (Inr 1001, p2)"
    "mem (units (first_blk p2 ! 1) ! 0) = Some 9"
    by blast
  have "xs = [1, 2, 3]" using r(2) by (simp add: full_pool_def free_list_busy_block)
  then have "free_list P4 (first_blk p1 ! 1) = Some [0, 1, 2, 3]" using r(3) by simp
  moreover have "used (first_blk full_pool ! 0) = int (BlockCap P4)" using f by simp
  ultimately show ?thesis
    using params_ok_P4 a b r(1,4,5)
    by (intro conjI exI [of _ p1] exI [of _ p2]) assumption+
qed

subsection \<open>C8: new blocks\<close>

text \<open>
  C8: \<^verbatim>\<open>addBlock(n)\<close> with \<open>n > 0\<close> prepends \<open>n\<close> blocks to the list, the block of the last
  \<^verbatim>\<open>new\<close> at the head. Each of them is fully free: \<^verbatim>\<open>used\<close> is 0, \<^verbatim>\<open>first\<close> is 0, no unit holds
  an object, unit \<open>j\<close> links to \<open>j + 1\<close>, so the free list is \<open>0, 1, \<dots>, BlockCap - 1\<close> and the
  link of the last unit is the sentinel \<^verbatim>\<open>BlockCap\<close>. So it is with construction:
  \<^verbatim>\<open>ObjectPool(n)\<close> yields a pool of exactly these \<open>n\<close> blocks and \<^verbatim>\<open>ObjectPool()\<close> a pool of one
  such block.
\<close>

theorem addBlock_prepends_fully_free_blocks:
  fixes p :: "'a ObjectPool"
  assumes "0 < n"
  shows "(\<exists>p'. addBlock P alloc n p = (Inr (), p') \<and>
           first_blk p' = map (\<lambda>i. fresh_block P (alloc i)) (rev [0..<unat n]) @ first_blk p \<and>
           (\<forall>i < unat n. fully_free P (first_blk p' ! i) \<and>
                units_at (first_blk p' ! i) = alloc (unat n - 1 - i)) \<and>
           fully_free P (hd (first_blk p')) \<and>
           (0 < BlockCap P \<longrightarrow>
              unit_next (last (units (hd (first_blk p')))) = int (BlockCap P))) \<and>
         (\<exists>q :: 'a ObjectPool. ObjectPool_ctor P alloc n = Inr q \<and>
           first_blk q = map (\<lambda>i. fresh_block P (alloc i)) (rev [0..<unat n]) \<and>
           length (first_blk q) = unat n \<and> first_blk q \<noteq> [] \<and>
           (\<forall>i < unat n. fully_free P (first_blk q ! i) \<and>
                units_at (first_blk q ! i) = alloc (unat n - 1 - i)) \<and>
           fully_free P (hd (first_blk q)) \<and>
           (0 < BlockCap P \<longrightarrow>
              unit_next (last (units (hd (first_blk q)))) = int (BlockCap P))) \<and>
         (\<exists>q :: 'a ObjectPool. ObjectPool_default P alloc = Inr q \<and>
           first_blk q = [fresh_block P (alloc 0)] \<and>
           fully_free P (hd (first_blk q)) \<and> units_at (hd (first_blk q)) = alloc 0 \<and>
           (0 < BlockCap P \<longrightarrow>
              unit_next (last (units (hd (first_blk q)))) = int (BlockCap P)))"
proof -
  have n0: "0 < unat n" using assms by (simp add: word_greater_zero_iff unat_gt_0)
  have add: "\<exists>p'. addBlock P alloc m p = (Inr (), p') \<and>
           first_blk p' = map (\<lambda>i. fresh_block P (alloc i)) (rev [0..<unat m]) @ first_blk p \<and>
           (\<forall>i < unat m. fully_free P (first_blk p' ! i) \<and>
                units_at (first_blk p' ! i) = alloc (unat m - 1 - i)) \<and>
           fully_free P (hd (first_blk p')) \<and>
           (0 < BlockCap P \<longrightarrow>
              unit_next (last (units (hd (first_blk p')))) = int (BlockCap P))"
    if m: "0 < m" for m and p :: "'a ObjectPool"
  proof -
    let ?new = "map (\<lambda>i. fresh_block P (alloc i)) (rev [0..<unat m])"
    let ?p' = "p\<lparr>first_blk := ?new @ first_blk p, total_block := total_block p + m\<rparr>"
    have m0: "0 < unat m" using m by (simp add: word_greater_zero_iff unat_gt_0)
    have 1: "addBlock P alloc m p = (Inr (), ?p')"
      using m by (simp add: addBlock_def addBlock_loop_eq)
    have 2: "fully_free P (first_blk ?p' ! i) \<and>
             units_at (first_blk ?p' ! i) = alloc (unat m - 1 - i)"
      if "i < unat m" for i
    proof -
      have "first_blk ?p' ! i = ?new ! i" using that by (simp add: nth_append)
      also have "\<dots> = fresh_block P (alloc (unat m - 1 - i))"
        using that by (simp add: rev_nth)
      finally show ?thesis
        by (simp add: fresh_block_fully_free) (simp add: fresh_block_def new_MemoryBlock_def)
    qed
    have 3: "hd (first_blk ?p') = first_blk ?p' ! 0"
      using m0 by (cases "?new") (auto simp: hd_conv_nth)
    have 4: "unit_next (last (units (hd (first_blk ?p')))) = int (BlockCap P)" if "0 < BlockCap P"
    proof -
      have "fully_free P (hd (first_blk ?p'))" using 2 [OF m0] 3 by simp
      then have "units (hd (first_blk ?p')) =
                 map (\<lambda>j. \<lparr>unit_next = int j + 1, mem = None\<rparr>) [0..<BlockCap P]"
        by (simp add: fully_free_def)
      then show ?thesis using that by (simp add: last_map of_nat_diff)
    qed
    show ?thesis using 1 2 3 4 m0 by (intro exI [of _ ?p']) simp
  qed
  have ctor: "\<exists>q :: 'a ObjectPool. ObjectPool_ctor P alloc m = Inr q \<and>
           first_blk q = map (\<lambda>i. fresh_block P (alloc i)) (rev [0..<unat m]) \<and>
           length (first_blk q) = unat m \<and> first_blk q \<noteq> [] \<and>
           (\<forall>i < unat m. fully_free P (first_blk q ! i) \<and>
                units_at (first_blk q ! i) = alloc (unat m - 1 - i)) \<and>
           fully_free P (hd (first_blk q)) \<and>
           (0 < BlockCap P \<longrightarrow>
              unit_next (last (units (hd (first_blk q)))) = int (BlockCap P))"
    if m: "0 < m" for m
  proof -
    from add [OF m, of "\<lparr>first_blk = [], total_block = 0\<rparr>"]
    obtain q :: "'a ObjectPool" where q0:
      "addBlock P alloc m \<lparr>first_blk = [], total_block = 0\<rparr> = (Inr (), q) \<and>
       first_blk q = map (\<lambda>i. fresh_block P (alloc i)) (rev [0..<unat m]) @
         first_blk (\<lparr>first_blk = [], total_block = 0\<rparr> :: 'a ObjectPool) \<and>
       (\<forall>i < unat m. fully_free P (first_blk q ! i) \<and>
                units_at (first_blk q ! i) = alloc (unat m - 1 - i)) \<and>
       fully_free P (hd (first_blk q)) \<and>
       (0 < BlockCap P \<longrightarrow> unit_next (last (units (hd (first_blk q)))) = int (BlockCap P))"
      by (rule exE)
    note q1 = q0 [THEN conjunct1]
    have q2: "first_blk q = map (\<lambda>i. fresh_block P (alloc i)) (rev [0..<unat m])"
      using q0 [THEN conjunct2, THEN conjunct1] by simp
    note q3 = q0 [THEN conjunct2, THEN conjunct2, THEN conjunct1]
    note q4 = q0 [THEN conjunct2, THEN conjunct2, THEN conjunct2, THEN conjunct1]
    note q5 = q0 [THEN conjunct2, THEN conjunct2, THEN conjunct2, THEN conjunct2]
    have m0: "0 < unat m" using m by (simp add: word_greater_zero_iff unat_gt_0)
    have c: "ObjectPool_ctor P alloc m = Inr q" by (simp add: ObjectPool_ctor_def q1)
    have l: "length (first_blk q) = unat m" by (simp add: q2)
    then have ne: "first_blk q \<noteq> []" using m0 by auto
    show ?thesis using c q2 l ne q3 q4 q5 by (intro exI [of _ q] conjI) assumption+
  qed
  have dflt: "\<exists>q :: 'a ObjectPool. ObjectPool_default P alloc = Inr q \<and>
           first_blk q = [fresh_block P (alloc 0)] \<and>
           fully_free P (hd (first_blk q)) \<and> units_at (hd (first_blk q)) = alloc 0 \<and>
           (0 < BlockCap P \<longrightarrow>
              unit_next (last (units (hd (first_blk q)))) = int (BlockCap P))"
  proof -
    have one: "(0 :: size_t) < 1" by simp
    from ctor [OF one] obtain q :: "'a ObjectPool" where q0:
      "ObjectPool_ctor P alloc 1 = Inr q \<and>
       first_blk q = map (\<lambda>i. fresh_block P (alloc i)) (rev [0..<unat (1 :: size_t)]) \<and>
       length (first_blk q) = unat (1 :: size_t) \<and> first_blk q \<noteq> [] \<and>
       (\<forall>i < unat (1 :: size_t). fully_free P (first_blk q ! i) \<and>
            units_at (first_blk q ! i) = alloc (unat (1 :: size_t) - 1 - i)) \<and>
       fully_free P (hd (first_blk q)) \<and>
       (0 < BlockCap P \<longrightarrow> unit_next (last (units (hd (first_blk q)))) = int (BlockCap P))"
      by (rule exE)
    note q1 = q0 [THEN conjunct1]
    have f: "first_blk q = [fresh_block P (alloc 0)]"
      using q0 [THEN conjunct2, THEN conjunct1] by simp
    note q6 = q0 [THEN conjunct2, THEN conjunct2, THEN conjunct2, THEN conjunct2,
        THEN conjunct2, THEN conjunct1]
    note q7 = q0 [THEN conjunct2, THEN conjunct2, THEN conjunct2, THEN conjunct2,
        THEN conjunct2, THEN conjunct2]
    have u: "units_at (hd (first_blk q)) = alloc 0"
      by (simp add: f fresh_block_def new_MemoryBlock_def)
    have d: "ObjectPool_default P alloc = Inr q" by (simp add: ObjectPool_default_def q1)
    show ?thesis using d f q6 u q7 by (intro exI [of _ q] conjI) assumption+
  qed
  from add [OF assms, of p] ctor [OF assms] dflt show ?thesis by (intro conjI)
qed

theorem addBlock_prepends_fully_free_blocks_witness:
  "(0::size_t) < 2 \<and>
   (\<exists>p'. addBlock P4 alloc4 2 empty_pool = (Inr (), p') \<and>
      map units_at (first_blk p') = [1100, 1000] \<and>
      fully_free P4 (first_blk p' ! 0) \<and> fully_free P4 (first_blk p' ! 1) \<and>
      unit_next (last (units (hd (first_blk p')))) = 4) \<and>
   (\<exists>q. ObjectPool_ctor P4 alloc4 2 = Inr (q :: nat ObjectPool) \<and>
      map units_at (first_blk q) = [1100, 1000] \<and>
      fully_free P4 (first_blk q ! 0) \<and> fully_free P4 (first_blk q ! 1)) \<and>
   (\<exists>q. ObjectPool_default P4 alloc4 = Inr q \<and> first_blk q = [fresh4])"
proof -
  have h: "(0::size_t) < 2" by simp
  have u: "unat (2::size_t) = 2" by simp
  have l: "[0..<2] = [0, Suc 0]" by (simp add: upt_rec)
  note t = addBlock_prepends_fully_free_blocks [OF h, of P4 alloc4 empty_pool]
  from t obtain p' where p': "addBlock P4 alloc4 2 empty_pool = (Inr (), p')"
    "first_blk p' = map (\<lambda>i. fresh_block P4 (alloc4 i)) (rev [0..<unat (2::size_t)]) @ first_blk empty_pool"
    "\<forall>i < unat (2::size_t). fully_free P4 (first_blk p' ! i) \<and>
        units_at (first_blk p' ! i) = alloc4 (unat (2::size_t) - 1 - i)"
    "0 < BlockCap P4 \<longrightarrow> unit_next (last (units (hd (first_blk p')))) = int (BlockCap P4)"
    by auto
  from t obtain q :: "nat ObjectPool" where q: "ObjectPool_ctor P4 alloc4 2 = Inr q"
    "first_blk q = map (\<lambda>i. fresh_block P4 (alloc4 i)) (rev [0..<unat (2::size_t)])"
    "\<forall>i < unat (2::size_t). fully_free P4 (first_blk q ! i) \<and>
        units_at (first_blk q ! i) = alloc4 (unat (2::size_t) - 1 - i)"
    by blast
  from t obtain d :: "nat ObjectPool" where d: "ObjectPool_default P4 alloc4 = Inr d"
    "first_blk d = [fresh_block P4 (alloc4 0)]"
    by blast
  have a: "\<exists>p'. addBlock P4 alloc4 2 empty_pool = (Inr (), p') \<and>
      map units_at (first_blk p') = [1100, 1000] \<and>
      fully_free P4 (first_blk p' ! 0) \<and> fully_free P4 (first_blk p' ! 1) \<and>
      unit_next (last (units (hd (first_blk p')))) = 4"
  proof -
    have "map units_at (first_blk p') = [1100, 1000]"
      using p'(2) l by (simp add: u fresh_block_def new_MemoryBlock_def alloc4_def empty_pool_def)
    moreover have "fully_free P4 (first_blk p' ! 0)" "fully_free P4 (first_blk p' ! 1)"
      using p'(3) by (simp_all add: u)
    moreover have "unit_next (last (units (hd (first_blk p')))) = 4"
      using p'(4) by (simp add: P4_def)
    ultimately show ?thesis using p'(1) by (intro conjI exI [of _ p']) assumption+
  qed
  have b: "\<exists>q. ObjectPool_ctor P4 alloc4 2 = Inr (q :: nat ObjectPool) \<and>
      map units_at (first_blk q) = [1100, 1000] \<and>
      fully_free P4 (first_blk q ! 0) \<and> fully_free P4 (first_blk q ! 1)"
  proof -
    have "map units_at (first_blk q) = [1100, 1000]"
      using q(2) l by (simp add: u fresh_block_def new_MemoryBlock_def alloc4_def)
    moreover have "fully_free P4 (first_blk q ! 0)" "fully_free P4 (first_blk q ! 1)"
      using q(3) by (simp_all add: u)
    ultimately show ?thesis using q(1) by (intro conjI exI [of _ q]) assumption+
  qed
  have c: "\<exists>q. ObjectPool_default P4 alloc4 = Inr q \<and> first_blk q = [fresh4]"
    using d fresh_block_P4 by (auto simp: alloc4_def)
  from h a b c show ?thesis by (intro conjI)
qed

subsection \<open>C9: the block count of addBlock and removeBlock\<close>

text \<open>
  C9: \<^verbatim>\<open>addBlock(0)\<close> and \<^verbatim>\<open>removeBlock(0)\<close> throw the block-count exception (the
  specification's InvalidBlockCount) and leave the pool as it was; for \<open>n > 0\<close>, \<^verbatim>\<open>addBlock(n)\<close>
  returns normally and \<^verbatim>\<open>removeBlock(n)\<close> does not throw that exception, however few blocks
  it can remove.
\<close>

theorem zero_block_count_rejected:
  "addBlock P alloc 0 p = (Inl UnavailableBlockCountException, p) \<and>
   removeBlock 0 p = (Inl UnavailableBlockCountException, p) \<and>
   (0 < n \<longrightarrow> fst (addBlock P alloc n p) = Inr () \<and>
                 fst (removeBlock n p) \<noteq> Inl UnavailableBlockCountException)"
  by (auto simp: addBlock_def removeBlock_def split: list.splits prod.splits)

theorem zero_block_count_rejected_witness:
  "(0::size_t) < 1 \<and> fst (addBlock P4 alloc4 1 empty_pool) = Inr () \<and>
   fst (removeBlock 5 empty_pool) = Inr 0 \<and>
   addBlock P4 alloc4 0 empty_pool = (Inl UnavailableBlockCountException, empty_pool)"
  using zero_block_count_rejected [of P4 alloc4 empty_pool 1]
  by (simp add: removeBlock_def empty_pool_def)

subsection \<open>C10: no pool without blocks from the constructor\<close>

text \<open>
  C10, as amended: \<^verbatim>\<open>ObjectPool(0)\<close> throws the block-count exception of \<^verbatim>\<open>addBlock\<close>;
  \<^verbatim>\<open>ObjectPool(n)\<close> with \<open>n > 0\<close> yields a pool of \<open>n\<close> blocks and the default constructor one of
  one block, so neither yields a pool without blocks. \<^verbatim>\<open>addBlock\<close>, \<^verbatim>\<open>get\<close> (whether or not
  its constructor call throws), \<^verbatim>\<open>release\<close> and a \<^verbatim>\<open>resize\<close> that does not shrink never lower
  the number of blocks, and a pool has a block after every \<^verbatim>\<open>get\<close>; a \<^verbatim>\<open>resize\<close> that shrinks
  leaves the list of its \<^verbatim>\<open>removeBlock\<close>. \<^verbatim>\<open>swap\<close> gives either pool the list of the other, and
  move construction gives the new pool the list of the source and the source what the
  storage of the new pool held. So a pool is left without blocks only by \<^verbatim>\<open>removeBlock\<close>, by
  \<^verbatim>\<open>swap\<close> with a pool without blocks, or by move construction.
\<close>

theorem ctor_never_yields_zero_blocks:
  "ObjectPool_ctor P alloc 0 = Inl UnavailableBlockCountException \<and>
   (0 < n \<longrightarrow>
      (\<exists>p. ObjectPool_ctor P alloc n = Inr p \<and> length (first_blk p) = unat n \<and>
         first_blk p \<noteq> [] \<and> total_block p = n)) \<and>
   (\<exists>p. ObjectPool_default P alloc = Inr p \<and> length (first_blk p) = 1 \<and> total_block p = 1) \<and>
   length (first_blk q) \<le> length (first_blk (snd (addBlock P alloc n q))) \<and>
   length (first_blk q) \<le> length (first_blk (snd (get P alloc c q))) \<and>
   first_blk (snd (get P alloc c q)) \<noteq> [] \<and>
   length (first_blk (snd (release P ptr q))) = length (first_blk q) \<and>
   (total_block q \<le> n \<longrightarrow> length (first_blk q) \<le> length (first_blk (snd (resize P alloc n q)))) \<and>
   (n < total_block q \<longrightarrow>
      first_blk (snd (resize P alloc n q)) = first_blk (snd (removeBlock (total_block q - n) q))) \<and>
   first_blk (fst (swap_pool q q')) = first_blk q' \<and>
   first_blk (snd (swap_pool q q')) = first_blk q \<and>
   first_blk (fst (ObjectPool_move u q)) = first_blk q \<and>
   first_blk (snd (ObjectPool_move u q)) = first_blk u"
proof -
  have 1: "ObjectPool_ctor P alloc 0 = Inl UnavailableBlockCountException"
    by (simp add: ObjectPool_ctor_def addBlock_def)
  have 2: "\<exists>p. ObjectPool_ctor P alloc n = Inr p \<and> length (first_blk p) = unat n \<and>
         first_blk p \<noteq> [] \<and> total_block p = n" if "0 < n"
  proof -
    have "0 < unat n" using that by (simp add: word_greater_zero_iff unat_gt_0)
    then have "rev [0..<unat n] \<noteq> []" by simp
    then show ?thesis by (simp add: ObjectPool_ctor_pos [OF that])
  qed
  have 3: "\<exists>p. ObjectPool_default P alloc = Inr p \<and> length (first_blk p) = 1 \<and> total_block p = 1"
    by (simp add: ObjectPool_default_def ObjectPool_ctor_def addBlock_def)
  have 4: "length (first_blk q) \<le> length (first_blk (snd (addBlock P alloc n q)))" for n
    by (simp add: addBlock_def addBlock_loop_eq)
  have 5: "length (first_blk q) \<le> length (first_blk (snd (resize P alloc n q)))"
    if "total_block q \<le> n"
    using that 4 [of "n - total_block q"]
    by (auto simp: resize_def split: prod.splits sum.splits)
  have 6: "first_blk (snd (resize P alloc n q)) =
           first_blk (snd (removeBlock (total_block q - n) q))"
    if "n < total_block q"
  proof -
    have "n \<noteq> total_block q" "\<not> total_block q < n" using that by auto
    then show ?thesis by (auto simp: resize_def split: prod.splits sum.splits)
  qed
  have 7: "first_blk (fst (swap_pool q q')) = first_blk q'"
    "first_blk (snd (swap_pool q q')) = first_blk q"
    "first_blk (fst (ObjectPool_move u q)) = first_blk q"
    "first_blk (snd (ObjectPool_move u q)) = first_blk u"
    by (simp_all add: swap_pool_def ObjectPool_move_def)
  show ?thesis
    using 1 2 3 4 [of n] 5 6 7 length_get [of q P alloc c] length_release [of P ptr q]
    by (intro conjI impI) (assumption | simp)+
qed

theorem ctor_never_yields_zero_blocks_witness:
  "(0::size_t) < 2 \<and>
   (\<exists>p. ObjectPool_ctor P4 alloc4 2 = Inr (p :: nat ObjectPool) \<and> length (first_blk p) = 2 \<and>
      total_block p = 2) \<and>
   total_block two_pool \<le> 2 \<and> 2 \<le> length (first_blk (snd (resize P4 alloc4 2 two_pool))) \<and>
   (1 :: size_t) < total_block two_pool \<and>
   first_blk (snd (resize P4 alloc4 1 two_pool)) = first_blk (snd (removeBlock 1 two_pool)) \<and>
   first_blk (fst (swap_pool two_pool empty_pool)) = first_blk empty_pool"
proof -
  have h: "(0::size_t) < 2" by simp
  have t: "total_block two_pool \<le> 2" "(1 :: size_t) < total_block two_pool"
    "total_block two_pool - 1 = 1"
    by (simp_all add: two_pool_def)
  have l: "length (first_blk two_pool) = 2" by (simp add: two_pool_def)
  note a = ctor_never_yields_zero_blocks [where P = P4 and alloc = alloc4 and n = 2
      and q = two_pool and c = None and ptr = 0 and q' = empty_pool and u = empty_pool]
  note b = ctor_never_yields_zero_blocks [where P = P4 and alloc = alloc4 and n = 1
      and q = two_pool and c = None and ptr = 0 and q' = empty_pool and u = empty_pool]
  have 1: "\<exists>p. ObjectPool_ctor P4 alloc4 2 = Inr (p :: nat ObjectPool) \<and>
      length (first_blk p) = 2 \<and> total_block p = 2"
    using a h by auto
  have 2: "2 \<le> length (first_blk (snd (resize P4 alloc4 2 two_pool)))"
    using a t(1) l by auto
  have 3: "first_blk (snd (resize P4 alloc4 1 two_pool)) =
           first_blk (snd (removeBlock 1 two_pool))"
    using b t(2,3) by auto
  have 4: "first_blk (fst (swap_pool two_pool empty_pool)) = first_blk empty_pool"
    using a by blast
  from h 1 t(1) 2 t(2) 3 4 show ?thesis by (intro conjI)
qed

text \<open>
  C10 as stated leaves only the move source and \<^verbatim>\<open>removeBlock\<close> as ways to a pool without
  blocks. The public \<^verbatim>\<open>swap\<close> is one more: \<^verbatim>\<open>removeBlock(1)\<close> empties the pool of
  \<^verbatim>\<open>ObjectPool(1)\<close>, and swapping the pool of two blocks with that one leaves the pool of two
  blocks without any.
\<close>

theorem swap_leaves_zero_blocks_counterexample:
  "removeBlock 1 \<lparr>first_blk = [fresh4], total_block = 1\<rparr> = (Inr 1, empty_pool) \<and>
   length (first_blk two_pool) = 2 \<and>
   first_blk (fst (swap_pool two_pool empty_pool)) = [] \<and>
   first_blk (snd (swap_pool two_pool empty_pool)) = first_blk two_pool"
  by (simp add: removeBlock_def fresh4_def empty_pool_def swap_pool_def two_pool_def)

end
